theory Spec2Isabelle
  imports
    Complex_Main
    "HOL-Library.Word"
    "HOL-Library.Log_Nat"
    "HOL-Library.Multiset"
    "HOL-Library.Char_ord"
    "HOL-Library.List_Lexorder"
    "HOL-Library.Sublist"
begin

unbundle bit_operations_syntax

section \<open>Poker engine: Kev bitmask, prime hash and equity tools\<close>

text \<open>
  A shallow embedding of the evaluation service (\<^verbatim>\<open>src/unnamed/part_000\<close>): the card
  encoder, the straight table, the 5-card evaluator with its process-wide
  \<^verbatim>\<open>PRIME_LOOKUP\<close> cache, the 7-card evaluator and the three Monte-Carlo equity
  functions.  JavaScript's bitwise operators work on 32-bit integers, so encoded cards are
  \<open>32 word\<close>; the prime product is computed by \<^verbatim>\<open>*\<close> on numbers and never leaves the
  exactly representable range, so it is an \<open>int\<close>.
\<close>

subsection \<open>Cards\<close>

text \<open>
  Modelled from the spec: the \<^verbatim>\<open>Card\<close> type of \<^verbatim>\<open>@poker/types\<close> is not among the
  sources.  Section 3 of the specification gives it as an immutable value with a rank out of
  thirteen symbols and a suit out of four, compared by (rank, suit); the symbols are those of
  \<^verbatim>\<open>RANKS\<close> and \<^verbatim>\<open>SUIT_MASK\<close>.
\<close>

datatype Rank = R2 | R3 | R4 | R5 | R6 | R7 | R8 | R9 | R10 | RJ | RQ | RK | RA

datatype Suit = Clubs | Diamonds | Hearts | Spades

record Card =
  rank :: Rank
  suit :: Suit

type_synonym int32 = "32 word"

definition RANKS :: "Rank list" where
  "RANKS = [R2, R3, R4, R5, R6, R7, R8, R9, R10, RJ, RQ, RK, RA]"

definition PRIMES :: "int32 list" where
  "PRIMES = [2, 3, 5, 7, 11, 13, 17, 19, 23, 29, 31, 37, 41]"

text \<open>\<^verbatim>\<open>RANKS.forEach((r, i) => (rankIndex[r] = i))\<close>: the position of the rank in \<^verbatim>\<open>RANKS\<close>.\<close>

fun rankIndex :: "Rank \<Rightarrow> nat" where
  "rankIndex R2 = 0"
| "rankIndex R3 = 1"
| "rankIndex R4 = 2"
| "rankIndex R5 = 3"
| "rankIndex R6 = 4"
| "rankIndex R7 = 5"
| "rankIndex R8 = 6"
| "rankIndex R9 = 7"
| "rankIndex R10 = 8"
| "rankIndex RJ = 9"
| "rankIndex RQ = 10"
| "rankIndex RK = 11"
| "rankIndex RA = 12"

fun SUIT_MASK :: "Suit \<Rightarrow> int32" where
  "SUIT_MASK Clubs = 0x8000"
| "SUIT_MASK Diamonds = 0x4000"
| "SUIT_MASK Hearts = 0x2000"
| "SUIT_MASK Spades = 0x1000"

subsection \<open>Card encoder (Kev structure)\<close>

definition encodeCard :: "Card \<Rightarrow> int32" where
  "encodeCard c =
     (let r = rankIndex (rank c);
          prime = PRIMES ! r;
          rank' = push_bit 8 (of_nat r);
          suit' = SUIT_MASK (suit c);
          bit' = push_bit r 1
      in prime OR rank' OR suit' OR push_bit 16 bit')"

subsection \<open>Straight bitmask table\<close>

definition STRAIGHTS :: "int32 list" where
  "STRAIGHTS =
     [0x1F00, 0x0F80, 0x07C0, 0x03E0, 0x01F0, 0x00F8, 0x007C, 0x003E, 0x001F, 0x100F]"

definition isStraightMask :: "int32 \<Rightarrow> bool" where
  "isStraightMask msk = list_ex (\<lambda>s. msk AND s = s) STRAIGHTS"

subsection \<open>Rank classes and the prime product lookup table\<close>

datatype RankClass =
  HIGH | PAIR | TWOPAIR | TRIPS | STRAIGHT | FLUSH | FULLHOUSE | QUADS | STRAIGHTFLUSH

text \<open>A \<^verbatim>\<open>RankClass\<close> is a string literal type; this is the string each value is.\<close>

fun className :: "RankClass \<Rightarrow> string" where
  "className HIGH = ''HIGH''"
| "className PAIR = ''PAIR''"
| "className TWOPAIR = ''TWOPAIR''"
| "className TRIPS = ''TRIPS''"
| "className STRAIGHT = ''STRAIGHT''"
| "className FLUSH = ''FLUSH''"
| "className FULLHOUSE = ''FULLHOUSE''"
| "className QUADS = ''QUADS''"
| "className STRAIGHTFLUSH = ''STRAIGHTFLUSH''"

text \<open>\<^verbatim>\<open>PRIME_LOOKUP\<close>, a \<^verbatim>\<open>Map<number, RankClass>\<close>, is module state: every function that
  reaches the evaluator takes the table and returns it updated.\<close>

type_synonym lookup = "int \<rightharpoonup> RankClass"

subsubsection \<open>Rank pattern\<close>

text \<open>The decimal string of a count (\<^verbatim>\<open>String(n)\<close> for a non-negative integer).\<close>

fun decimal :: "nat \<Rightarrow> string" where
  "decimal n =
     (if n < 10 then [''0123456789'' ! n]
      else decimal (n div 10) @ [''0123456789'' ! (n mod 10)])"

declare decimal.simps [simp del]

text \<open>\<^verbatim>\<open>Array.prototype.join\<close> on strings.\<close>

fun join :: "string \<Rightarrow> string list \<Rightarrow> string" where
  "join sep [] = []"
| "join sep [x] = x"
| "join sep (x # y # ys) = x @ sep @ join sep (y # ys)"

text \<open>
  \<^verbatim>\<open>Object.values(counts)\<close>: the keys of \<^verbatim>\<open>counts\<close> are rank indices, integer keys below
  13, which an object enumerates in ascending numeric order whatever the insertion order.
\<close>

definition object_values :: "(nat \<rightharpoonup> nat) \<Rightarrow> nat list" where
  "object_values counts = map (\<lambda>k. the (counts k)) (filter (\<lambda>k. counts k \<noteq> None) [0..<13])"

text \<open>
  \<^verbatim>\<open>.sort()\<close> without a comparator orders the elements by their strings, ascending, by
  code units (on digit strings: the order of \<open>char list\<close>); \<^verbatim>\<open>.join(',')\<close> then writes
  the pattern.  The \<^verbatim>\<open>switch\<close> compares the pattern with five string literals.
\<close>

definition countsPattern :: "(nat \<rightharpoonup> nat) \<Rightarrow> string" where
  "countsPattern counts = join '','' (map decimal (sort_key decimal (object_values counts)))"

definition classifyByCounts :: "(nat \<rightharpoonup> nat) \<Rightarrow> RankClass" where
  "classifyByCounts counts =
     (let pattern = countsPattern counts
      in if pattern = ''4,1'' then QUADS
         else if pattern = ''3,2'' then FULLHOUSE
         else if pattern = ''3,1,1'' then TRIPS
         else if pattern = ''2,2,1'' then TWOPAIR
         else if pattern = ''2,1,1,1'' then PAIR
         else HIGH)"

subsection \<open>5-card Kev evaluator\<close>

text \<open>
  \<^verbatim>\<open>ints[i]\<close> past the end of the array is \<^verbatim>\<open>undefined\<close>, which \<^verbatim>\<open>&\<close> and \<^verbatim>\<open>|\<close> read
  as 0 (ToInt32).
\<close>

definition int_at :: "int32 list \<Rightarrow> nat \<Rightarrow> int32" where
  "int_at ints i = (if i < length ints then ints ! i else 0)"

text \<open>\<^verbatim>\<open>counts[r] = (counts[r] || 0) + 1\<close> for each card, in order.\<close>

definition countRank :: "Card \<Rightarrow> (nat \<rightharpoonup> nat) \<Rightarrow> (nat \<rightharpoonup> nat)" where
  "countRank c counts =
     (let r = rankIndex (rank c)
      in counts(r \<mapsto> (case counts r of None \<Rightarrow> 0 | Some n \<Rightarrow> n) + 1))"

definition buildCounts :: "Card list \<Rightarrow> (nat \<rightharpoonup> nat)" where
  "buildCounts cards = fold countRank cards Map.empty"

text \<open>The local constants \<^verbatim>\<open>suitAND\<close>, \<^verbatim>\<open>rankMask\<close> and \<^verbatim>\<open>product\<close> of the evaluator.\<close>

definition suitAND :: "int32 list \<Rightarrow> int32" where
  "suitAND ints =
     int_at ints 0 AND int_at ints 1 AND int_at ints 2 AND int_at ints 3 AND int_at ints 4"

definition rankMask :: "int32 list \<Rightarrow> int32" where
  "rankMask ints =
     signed_drop_bit 16
       (int_at ints 0 OR int_at ints 1 OR int_at ints 2 OR int_at ints 3 OR int_at ints 4)"

definition primeProduct :: "int32 list \<Rightarrow> int" where
  "primeProduct ints =
     sint (int_at ints 0 AND 0xff) * sint (int_at ints 1 AND 0xff)
       * sint (int_at ints 2 AND 0xff) * sint (int_at ints 3 AND 0xff)
       * sint (int_at ints 4 AND 0xff)"

definition evaluate5Kev :: "lookup \<Rightarrow> Card list \<Rightarrow> RankClass \<times> lookup" where
  "evaluate5Kev PRIME_LOOKUP cards =
     (let ints = map encodeCard cards;
          flush = (suitAND ints AND 0xf000 \<noteq> 0);
          straight = isStraightMask (rankMask ints)
      in if straight \<and> flush then (STRAIGHTFLUSH, PRIME_LOOKUP)
         else if flush then (FLUSH, PRIME_LOOKUP)
         else if straight then (STRAIGHT, PRIME_LOOKUP)
         else
           let product = primeProduct ints
           in case PRIME_LOOKUP product of
                Some cls \<Rightarrow> (cls, PRIME_LOOKUP)
              | None \<Rightarrow>
                  let counts = buildCounts cards;
                      cls = classifyByCounts counts
                  in (cls, PRIME_LOOKUP(product \<mapsto> cls)))"

subsection \<open>7-card evaluator\<close>

text \<open>
  \<^verbatim>\<open>helper(s, c)\<close> pushes a copy of \<^verbatim>\<open>c\<close> on \<^verbatim>\<open>res\<close> when it has \<^verbatim>\<open>k\<close> elements, and
  otherwise recurses for each index from \<^verbatim>\<open>s\<close> on with \<^verbatim>\<open>arr[i]\<close> appended; the function
  returns what the call pushes, in order.
\<close>

function helper :: "'a list \<Rightarrow> nat \<Rightarrow> nat \<Rightarrow> 'a list \<Rightarrow> 'a list list" where
  "helper arr k s c =
     (if length c = k then [c]
      else concat (map (\<lambda>i. helper arr k (i + 1) (c @ [arr ! i])) [s..<length arr]))"
  by pat_completeness auto
termination
  by (relation "measure (\<lambda>(arr, k, s, c). length arr - s)") auto

declare helper.simps [simp del]

definition combinations :: "'a list \<Rightarrow> nat \<Rightarrow> 'a list list" where
  "combinations arr k = helper arr k 0 []"

definition rankOrder :: "RankClass list" where
  "rankOrder = [HIGH, PAIR, TWOPAIR, TRIPS, STRAIGHT, FLUSH, FULLHOUSE, QUADS, STRAIGHTFLUSH]"

text \<open>\<^verbatim>\<open>Array.prototype.indexOf\<close>: the first position of the element, or -1.\<close>

fun indexOf :: "'a list \<Rightarrow> 'a \<Rightarrow> int" where
  "indexOf [] x = - 1"
| "indexOf (y # ys) x =
     (if y = x then 0 else (let i = indexOf ys x in if i < 0 then - 1 else i + 1))"

text \<open>The \<^verbatim>\<open>for (const c of all)\<close> loop, with \<^verbatim>\<open>best\<close> and the lookup table as its state.\<close>

fun evaluate7Loop :: "lookup \<Rightarrow> RankClass \<Rightarrow> Card list list \<Rightarrow> RankClass \<times> lookup" where
  "evaluate7Loop PRIME_LOOKUP best [] = (best, PRIME_LOOKUP)"
| "evaluate7Loop PRIME_LOOKUP best (c # rest) =
     (case evaluate5Kev PRIME_LOOKUP c of
        (r, PRIME_LOOKUP') \<Rightarrow>
          evaluate7Loop PRIME_LOOKUP'
            (if indexOf rankOrder r > indexOf rankOrder best then r else best) rest)"

definition evaluate7Perfect :: "lookup \<Rightarrow> Card list \<Rightarrow> RankClass \<times> lookup" where
  "evaluate7Perfect PRIME_LOOKUP cards = evaluate7Loop PRIME_LOOKUP HIGH (combinations cards 5)"

subsection \<open>Randomness, decks and slices\<close>

text \<open>
  \<^verbatim>\<open>Math.random\<close> is the only input the equity functions read besides their arguments.  One
  trial draws from it an index into each range (\<^verbatim>\<open>Math.floor(Math.random() * length)\<close>) and
  a shuffle, \<^verbatim>\<open>[...arr].sort(() => Math.random() - 0.5)\<close>, which is some rearrangement of
  the array fixed by the numbers drawn.  A random source gives the draws of trial \<open>i\<close>.
  The number of iterations is a natural number, and the loops run that many times.
\<close>

record draws =
  heroPick :: nat
  villainPick :: nat
  rearranged :: "Card list \<Rightarrow> Card list"

type_synonym random = "nat \<Rightarrow> draws"

type_synonym RangeHand = "Card \<times> Card"

text \<open>The spread \<^verbatim>\<open>[...hand]\<close> of a two-card tuple.\<close>

definition spread :: "RangeHand \<Rightarrow> Card list" where
  "spread h = [fst h, snd h]"

definition removeUsed :: "Card list \<Rightarrow> Card list \<Rightarrow> Card list" where
  "removeUsed deck used =
     filter (\<lambda>c. \<not> list_ex (\<lambda>u. rank u = rank c \<and> suit u = suit c) used) deck"

definition FULL_DECK :: "Card list" where
  "FULL_DECK =
     (let suits = [Clubs, Diamonds, Hearts, Spades];
          ranks = [R2, R3, R4, R5, R6, R7, R8, R9, R10, RJ, RQ, RK, RA]
      in concat (map (\<lambda>s. map (\<lambda>r. \<lparr>rank = r, suit = s\<rparr>) ranks) suits))"

text \<open>
  \<^verbatim>\<open>Array.prototype.slice(start, end)\<close> on integers: a negative bound counts from the end
  of the array, and both are clamped to it.
\<close>

definition slice :: "'a list \<Rightarrow> int \<Rightarrow> int \<Rightarrow> 'a list" where
  "slice xs start fin =
     (let len = int (length xs);
          k = (if start < 0 then max (len + start) 0 else min start len);
          final = (if fin < 0 then max (len + fin) 0 else min fin len)
      in take (nat (final - k)) (drop (nat k) xs))"

text \<open>
  Reading \<^verbatim>\<open>arr[i]\<close> gives \<^verbatim>\<open>undefined\<close> past the end.  Spreading \<^verbatim>\<open>undefined\<close> and
  reading \<^verbatim>\<open>c.rank\<close> of \<^verbatim>\<open>undefined\<close> throw a \<^verbatim>\<open>TypeError\<close>, the only exception the
  module can raise.
\<close>

datatype error = TypeError

definition element :: "'a list \<Rightarrow> nat \<Rightarrow> 'a option" where
  "element arr i = (if i < length arr then Some (arr ! i) else None)"

text \<open>
  \<^verbatim>\<open>evaluate7Perfect\<close> on an array that may hold \<^verbatim>\<open>undefined\<close>: with fewer than five
  elements there is no combination and no card is read; otherwise every element is in some
  combination, and \<^verbatim>\<open>encodeCard(undefined)\<close> throws.
\<close>

definition evaluate7PerfectU ::
    "lookup \<Rightarrow> Card option list \<Rightarrow> error + RankClass \<times> lookup" where
  "evaluate7PerfectU PRIME_LOOKUP cards =
     (if list_all (\<lambda>c. c \<noteq> None) cards then Inr (evaluate7Perfect PRIME_LOOKUP (map the cards))
      else if length cards < 5 then Inr (HIGH, PRIME_LOOKUP)
      else Inl TypeError)"

text \<open>A \<^verbatim>\<open>for (let i = 0; i < iterations; i++)\<close> loop whose body may throw.\<close>

fun trials :: "(nat \<Rightarrow> 's \<Rightarrow> error + 's) \<Rightarrow> nat list \<Rightarrow> 's \<Rightarrow> error + 's" where
  "trials body [] st = Inr st"
| "trials body (i # rest) st =
     (case body i st of Inl e \<Rightarrow> Inl e | Inr st' \<Rightarrow> trials body rest st')"

subsection \<open>Equity: range vs range\<close>

record RangeEquityResult =
  heroWin :: nat
  villainWin :: nat
  tie :: nat

text \<open>
  One pass of the loop body.  \<^verbatim>\<open>heroRank > villainRank\<close> compares two strings: JavaScript
  orders them by code units, which on these names is the order of \<open>char list\<close>.
\<close>

definition rangeTrial ::
    "random \<Rightarrow> RangeHand list \<Rightarrow> RangeHand list \<Rightarrow> Card list \<Rightarrow> Card list \<Rightarrow> nat \<Rightarrow>
     RangeEquityResult \<times> lookup \<Rightarrow> error + RangeEquityResult \<times> lookup" where
  "rangeTrial rnd heroRange villainRange board deck i st =
     (case (element heroRange (heroPick (rnd i)), element villainRange (villainPick (rnd i))) of
        (Some hero, Some villain) \<Rightarrow>
          (let used = spread hero @ spread villain @ board;
               rem = removeUsed deck used;
               shuffled = rearranged (rnd i) rem;
               need = 5 - int (length board);
               fullBoard = board @ slice shuffled 0 need;
               (heroRank, L1) = evaluate7Perfect (snd st) (spread hero @ fullBoard);
               (villainRank, L2) = evaluate7Perfect L1 (spread villain @ fullBoard);
               r = fst st
           in if heroRank = villainRank then Inr (r\<lparr>tie := tie r + 1\<rparr>, L2)
              else if className heroRank > className villainRank
                then Inr (r\<lparr>heroWin := heroWin r + 1\<rparr>, L2)
              else Inr (r\<lparr>villainWin := villainWin r + 1\<rparr>, L2))
      | _ \<Rightarrow> Inl TypeError)"

definition equityRangeVsRange ::
    "random \<Rightarrow> lookup \<Rightarrow> RangeHand list \<Rightarrow> RangeHand list \<Rightarrow> Card list \<Rightarrow> Card list \<Rightarrow> nat \<Rightarrow>
     error + RangeEquityResult \<times> lookup" where
  "equityRangeVsRange rnd PRIME_LOOKUP heroRange villainRange board deck iterations =
     trials (rangeTrial rnd heroRange villainRange board deck) [0..<iterations]
       (\<lparr>heroWin = 0, villainWin = 0, tie = 0\<rparr>, PRIME_LOOKUP)"

subsection \<open>Equity: hero hand winning percentage\<close>

text \<open>
  The percentages are IEEE-754 doubles, \<^verbatim>\<open>Number(((count / total) * 100).toFixed(2))\<close>.
  The two functions that return percentages take the arithmetic as a parameter: the number
  an integer is, the quotient \<^verbatim>\<open>/\<close>, the product \<^verbatim>\<open>*\<close>, and
  \<^verbatim>\<open>Number(x.toFixed(2))\<close>, the number read back from the rendering of \<^verbatim>\<open>x\<close> with two
  decimals.  The program runs them with \<open>doubles\<close>, the arithmetic of binary64 defined
  below.
\<close>

record 'n arith =
  numOf :: "nat \<Rightarrow> 'n"
  divNum :: "'n \<Rightarrow> 'n \<Rightarrow> 'n"
  mulNum :: "'n \<Rightarrow> 'n \<Rightarrow> 'n"
  toFixed2 :: "'n \<Rightarrow> 'n"

definition percent :: "'n arith \<Rightarrow> nat \<Rightarrow> nat \<Rightarrow> 'n" where
  "percent A cnt tot =
     toFixed2 A (mulNum A (divNum A (numOf A cnt) (numOf A tot)) (numOf A 100))"

subsubsection \<open>The arithmetic of doubles\<close>

text \<open>
  A JavaScript number that is not negative: \<^verbatim>\<open>NaN\<close>, \<^verbatim>\<open>Infinity\<close>, or a finite double,
  given by its exact value.  Counters and literals are not negative, and no operation used
  here makes a negative number of them.
\<close>

datatype number = NaN | PosInf | Finite rat

text \<open>The exponent of a positive rational: \<open>2 powi ilog2 x \<le> x < 2 powi (ilog2 x + 1)\<close>.\<close>

definition ilog2 :: "rat \<Rightarrow> int" where
  "ilog2 x =
     (let (p, q) = quotient_of x;
          d = bitlen p - bitlen q
      in if 2 powi d \<le> x then d else d - 1)"

text \<open>The nearest integer, the even one of two that are equally near.\<close>

definition roundEven :: "rat \<Rightarrow> int" where
  "roundEven y =
     (let f = \<lfloor>y\<rfloor>;
          d = y - of_int f
      in if d < 1 / 2 then f
         else if 1 / 2 < d then f + 1
         else if even f then f else f + 1)"

text \<open>
  Rounding of a non-negative real to binary64, to nearest with ties to even: 53 significant
  bits, the exponent not below -1022 (below it the numbers are subnormal, spaced
  \<open>2 powi - 1074\<close>), and \<^verbatim>\<open>Infinity\<close> from \<open>2 powi 1024\<close> on.
\<close>

definition binary64 :: "rat \<Rightarrow> number" where
  "binary64 x =
     (if x = 0 then Finite 0
      else
        let e = max (ilog2 x) (- 1022);
            u = 2 powi (e - 52);
            y = of_int (roundEven (x / u)) * u
        in if 2 powi 1024 \<le> y then PosInf else Finite y)"

text \<open>\<^verbatim>\<open>a / b\<close> and \<^verbatim>\<open>a * b\<close>: the exact result, rounded.\<close>

fun divDouble :: "number \<Rightarrow> number \<Rightarrow> number" where
  "divDouble NaN b = NaN"
| "divDouble a NaN = NaN"
| "divDouble PosInf PosInf = NaN"
| "divDouble PosInf (Finite y) = PosInf"
| "divDouble (Finite x) PosInf = Finite 0"
| "divDouble (Finite x) (Finite y) =
     (if y = 0 then (if x = 0 then NaN else PosInf) else binary64 (x / y))"

fun mulDouble :: "number \<Rightarrow> number \<Rightarrow> number" where
  "mulDouble NaN b = NaN"
| "mulDouble a NaN = NaN"
| "mulDouble PosInf PosInf = PosInf"
| "mulDouble PosInf (Finite y) = (if y = 0 then NaN else PosInf)"
| "mulDouble (Finite x) PosInf = (if x = 0 then NaN else PosInf)"
| "mulDouble (Finite x) (Finite y) = binary64 (x * y)"

text \<open>
  \<^verbatim>\<open>Number(x.toFixed(2))\<close>.  \<^verbatim>\<open>toFixed(2)\<close> writes \<open>n / 100\<close> for the integer \<open>n\<close> that
  makes \<open>n / 100 - x\<close> nearest to zero, the larger of two such; from \<open>10 ^ 21\<close> on, and for
  \<^verbatim>\<open>NaN\<close> and \<^verbatim>\<open>Infinity\<close>, it writes the number as \<^verbatim>\<open>String\<close> does.  \<^verbatim>\<open>Number\<close> reads
  the string back, rounding its value to a double.
\<close>

fun fixedDouble :: "number \<Rightarrow> number" where
  "fixedDouble NaN = NaN"
| "fixedDouble PosInf = PosInf"
| "fixedDouble (Finite x) =
     (if 10 ^ 21 \<le> x then Finite x else binary64 (of_int \<lfloor>x * 100 + 1 / 2\<rfloor> / 100))"

definition doubles :: "number arith" where
  "doubles =
     \<lparr>numOf = (\<lambda>k. binary64 (of_nat k)), divNum = divDouble, mulNum = mulDouble,
      toFixed2 = fixedDouble\<rparr>"

record EquityCounts =
  win :: nat
  lose :: nat
  tie :: nat

record 'n EquityResult = EquityCounts +
  winPct :: 'n
  losePct :: 'n
  tiePct :: 'n

text \<open>\<^verbatim>\<open>shuffle(arr)\<close>, with the draws it consumes.\<close>

definition shuffle :: "draws \<Rightarrow> Card list \<Rightarrow> Card list" where
  "shuffle d arr = rearranged d arr"

definition handOrder :: "RankClass list" where
  "handOrder = [HIGH, PAIR, TWOPAIR, TRIPS, STRAIGHT, FLUSH, FULLHOUSE, QUADS, STRAIGHTFLUSH]"

definition handTrial ::
    "random \<Rightarrow> RangeHand \<Rightarrow> Card list \<Rightarrow> nat \<Rightarrow>
     EquityCounts \<times> lookup \<Rightarrow> error + EquityCounts \<times> lookup" where
  "handTrial rnd heroHole board i st =
     (let used = spread heroHole @ board;
          deck = filter (\<lambda>c. \<not> list_ex (\<lambda>u. rank u = rank c \<and> suit u = suit c) used) FULL_DECK;
          shuffled = shuffle (rnd i) deck;
          villainHole = [element shuffled 0, element shuffled 1];
          need = 5 - int (length board);
          runout = slice shuffled 2 (2 + need);
          fullBoard = board @ runout;
          (heroRank, L1) = evaluate7Perfect (snd st) (spread heroHole @ fullBoard)
      in case evaluate7PerfectU L1 (villainHole @ map Some fullBoard) of
           Inl e \<Rightarrow> Inl e
         | Inr (villainRank, L2) \<Rightarrow>
             (let h = indexOf handOrder heroRank;
                  v = indexOf handOrder villainRank;
                  r = fst st
              in if h > v then Inr (r\<lparr>win := win r + 1\<rparr>, L2)
                 else if h < v then Inr (r\<lparr>lose := lose r + 1\<rparr>, L2)
                 else Inr (r\<lparr>EquityCounts.tie := EquityCounts.tie r + 1\<rparr>, L2)))"

definition calculateHandEquity ::
    "'n arith \<Rightarrow> random \<Rightarrow> lookup \<Rightarrow> RangeHand \<Rightarrow> Card list \<Rightarrow> nat \<Rightarrow>
     error + 'n EquityResult \<times> lookup" where
  "calculateHandEquity A rnd PRIME_LOOKUP heroHole board iterations =
     (case trials (handTrial rnd heroHole board) [0..<iterations]
             (\<lparr>win = 0, lose = 0, tie = 0\<rparr>, PRIME_LOOKUP) of
        Inl e \<Rightarrow> Inl e
      | Inr (r, L) \<Rightarrow>
          (let total = win r + lose r + EquityCounts.tie r
           in Inr (\<lparr>win = win r, lose = lose r, tie = EquityCounts.tie r,
                     winPct = percent A (win r) total,
                     losePct = percent A (lose r) total,
                     tiePct = percent A (EquityCounts.tie r) total\<rparr>, L)))"

subsection \<open>Equity: hero vs villain (hand vs hand)\<close>

record 'n HandVsHandEquityResult = RangeEquityResult +
  heroPct :: 'n
  villainPct :: 'n
  tiePct :: 'n

definition RANK_ORDER :: "RankClass list" where
  "RANK_ORDER = [HIGH, PAIR, TWOPAIR, TRIPS, STRAIGHT, FLUSH, FULLHOUSE, QUADS, STRAIGHTFLUSH]"

definition compareRanks :: "RankClass \<Rightarrow> RankClass \<Rightarrow> int" where
  "compareRanks a b = indexOf RANK_ORDER a - indexOf RANK_ORDER b"

text \<open>The body of the loop; nothing in it can throw.\<close>

definition handVsHandTrial ::
    "random \<Rightarrow> RangeHand \<Rightarrow> RangeHand \<Rightarrow> Card list \<Rightarrow> nat \<Rightarrow>
     RangeEquityResult \<times> lookup \<Rightarrow> RangeEquityResult \<times> lookup" where
  "handVsHandTrial rnd heroHole villainHole board i st =
     (let used = spread heroHole @ spread villainHole @ board;
          deck = filter (\<lambda>c. \<not> list_ex (\<lambda>u. rank u = rank c \<and> suit u = suit c) used) FULL_DECK;
          shuffled = shuffle (rnd i) deck;
          need = 5 - int (length board);
          runout = slice shuffled 0 need;
          fullBoard = board @ runout;
          (heroRank, L1) = evaluate7Perfect (snd st) (spread heroHole @ fullBoard);
          (villainRank, L2) = evaluate7Perfect L1 (spread villainHole @ fullBoard);
          cmp = compareRanks heroRank villainRank;
          r = fst st
      in if cmp > 0 then (r\<lparr>heroWin := heroWin r + 1\<rparr>, L2)
         else if cmp < 0 then (r\<lparr>villainWin := villainWin r + 1\<rparr>, L2)
         else (r\<lparr>RangeEquityResult.tie := RangeEquityResult.tie r + 1\<rparr>, L2))"

definition calculateHandVsHandEquity ::
    "'n arith \<Rightarrow> random \<Rightarrow> lookup \<Rightarrow> RangeHand \<Rightarrow> RangeHand \<Rightarrow> Card list \<Rightarrow> nat \<Rightarrow>
     'n HandVsHandEquityResult \<times> lookup" where
  "calculateHandVsHandEquity A rnd PRIME_LOOKUP heroHole villainHole board iterations =
     (let (r, L) = fold (handVsHandTrial rnd heroHole villainHole board) [0..<iterations]
                     (\<lparr>heroWin = 0, villainWin = 0, tie = 0\<rparr>, PRIME_LOOKUP);
          total = heroWin r + villainWin r + RangeEquityResult.tie r
      in (\<lparr>heroWin = heroWin r, villainWin = villainWin r, tie = RangeEquityResult.tie r,
            heroPct = percent A (heroWin r) total,
            villainPct = percent A (villainWin r) total,
            tiePct = percent A (RangeEquityResult.tie r) total\<rparr>, L))"

subsection \<open>Notions used by the statements\<close>

text \<open>The card of a rank and a suit, to write hands down.\<close>

definition cardOf :: "Rank \<Rightarrow> Suit \<Rightarrow> Card" where
  "cardOf r s = \<lparr>rank = r, suit = s\<rparr>"

text \<open>The rank indices among the cards the evaluator reads, the first five.\<close>

definition ranksOf :: "Card list \<Rightarrow> nat set" where
  "ranksOf cards = (\<lambda>c. rankIndex (rank c)) ` set (take 5 cards)"

text \<open>
  The states \<^verbatim>\<open>PRIME_LOOKUP\<close> can be in: empty when the module is loaded, and changed only
  by calls of \<^verbatim>\<open>evaluate5Kev\<close>, on whatever arrays of cards.
\<close>

inductive reachable :: "lookup \<Rightarrow> bool" where
  loaded: "reachable Map.empty"
| called: "reachable L \<Longrightarrow> reachable (snd (evaluate5Kev L cards))"

text \<open>
  What the draws of the first \<open>n\<close> trials satisfy when they come from \<^verbatim>\<open>Math.random\<close>:
  sorting keeps the length of the array, and an index \<^verbatim>\<open>Math.floor(Math.random() * length)\<close>
  into a non-empty range is below its length.
\<close>

definition keepsLength :: "random \<Rightarrow> nat \<Rightarrow> bool" where
  "keepsLength rnd n \<longleftrightarrow> (\<forall>i<n. \<forall>arr. length (rearranged (rnd i) arr) = length arr)"

definition picksWithin :: "random \<Rightarrow> nat \<Rightarrow> nat \<Rightarrow> nat \<Rightarrow> bool" where
  "picksWithin rnd n h v \<longleftrightarrow> (\<forall>i<n. heroPick (rnd i) < h \<and> villainPick (rnd i) < v)"

text \<open>
  For examples: the arithmetic that leaves every expression unevaluated, and the random
  source in which every index is 0 and the sort leaves the array as it is.
\<close>

datatype expr = Lit nat | Quot expr expr | Times expr expr | Fixed2 expr

definition unevaluated :: "expr arith" where
  "unevaluated = \<lparr>numOf = Lit, divNum = Quot, mulNum = Times, toFixed2 = Fixed2\<rparr>"

definition fixedDraws :: random where
  "fixedDraws = (\<lambda>i. \<lparr>heroPick = 0, villainPick = 0, rearranged = (\<lambda>arr. arr)\<rparr>)"

text \<open>
  A random source whose shuffle brings the nine of spades to the front in the first 23
  trials and the nine of hearts in the later ones.
\<close>

definition nineFirst :: random where
  "nineFirst =
     (\<lambda>i. \<lparr>heroPick = 0, villainPick = 0,
            rearranged = (\<lambda>arr. cardOf R9 (if i < 23 then Spades else Hearts)
                              # remove1 (cardOf R9 (if i < 23 then Spades else Hearts)) arr)\<rparr>)"

text \<open>
  Rounding to two decimals as the specification words it, the percentage
  \<open>count / trials * 100\<close> taken exactly and rounded half up.
\<close>

definition rounded2 :: "rat \<Rightarrow> rat" where
  "rounded2 q = of_int \<lfloor>q * 100 + 1 / 2\<rfloor> / 100"

text \<open>
  The percentage \<open>count / trials * 100\<close> lies exactly halfway between two hundredths:
  counted in hundredths, its fractional part is one half.
\<close>

definition halfway :: "nat \<Rightarrow> nat \<Rightarrow> bool" where
  "halfway c n \<longleftrightarrow> frac (of_nat c / of_nat n * 100 * 100 :: rat) = 1 / 2"

text \<open>
  What can be said of a returned percentage \<open>p\<close>, a double, against the specification's
  rounding: \<open>p\<close> is the double nearest to the rounded exact percentage, except that a
  percentage lying halfway may also come out one hundredth lower.
\<close>

definition percentageOf :: "number \<Rightarrow> nat \<Rightarrow> nat \<Rightarrow> bool" where
  "percentageOf p c n \<longleftrightarrow>
     (let q = of_nat c / of_nat n * 100
      in if halfway c n then p = binary64 (rounded2 q) \<or> p = binary64 (rounded2 q - 1 / 100)
         else p = binary64 (rounded2 q))"

text \<open>
  The comparison of two holdings on a board of five cards, as \<open>compareRanks\<close> gives it
  when the lookup table starts empty: positive when the hero's class is the higher one.
\<close>

definition showdown :: "RangeHand \<Rightarrow> RangeHand \<Rightarrow> Card list \<Rightarrow> int" where
  "showdown heroHole villainHole board =
     compareRanks (fst (evaluate7Perfect Map.empty (spread heroHole @ board)))
       (fst (evaluate7Perfect Map.empty (spread villainHole @ board)))"

text \<open>Splitting a string at a separator character, the inverse of \<open>join\<close>.\<close>

fun split_on :: "char \<Rightarrow> string \<Rightarrow> string list" where
  "split_on sep [] = [[]]"
| "split_on sep (x # xs) =
     (if x = sep then [] # split_on sep xs
      else (case split_on sep xs of [] \<Rightarrow> [[x]] | y # ys \<Rightarrow> (x # y) # ys))"

text \<open>The \<open>k\<close>-element selections of a list by position, in lexicographic order of positions.\<close>

fun selections :: "'a list \<Rightarrow> nat \<Rightarrow> 'a list list" where
  "selections xs 0 = [[]]"
| "selections [] (Suc k) = []"
| "selections (x # xs) (Suc k) = map ((#) x) (selections xs k) @ selections xs (Suc k)"

section \<open>Properties\<close>

subsection \<open>The rank pattern never matches\<close>

text \<open>
  \<open>classifyByCounts\<close> sorts the counts ascending and compares the joined pattern with
  literals written in descending order, so every comparison of the \<^verbatim>\<open>switch\<close> fails.
\<close>

lemma digit_not_comma: "n < 10 \<Longrightarrow> ''0123456789'' ! n \<noteq> CHR '',''"
proof -
  assume "n < 10"
  then have "n \<in> {0, 1, 2, 3, 4, 5, 6, 7, 8, 9}" by auto
  then show ?thesis by auto
qed

lemma decimal_no_comma: "CHR '','' \<notin> set (decimal n)"
proof (induction n rule: decimal.induct)
  case (1 n)
  show ?case
  proof (cases "n < 10")
    case True
    then show ?thesis using digit_not_comma [of n] by (subst decimal.simps) auto
  next
    case False
    then have "n mod 10 < 10" by simp
    with False 1 show ?thesis using digit_not_comma [of "n mod 10"]
      by (subst decimal.simps) auto
  qed
qed

lemma split_on_plain: "sep \<notin> set x \<Longrightarrow> split_on sep x = [x]"
  by (induction x) auto

lemma split_on_append:
  "sep \<notin> set x \<Longrightarrow> split_on sep (x @ sep # r) = x # split_on sep r"
  by (induction x) auto

lemma split_on_join:
  "ss \<noteq> [] \<Longrightarrow> \<forall>x\<in>set ss. sep \<notin> set x \<Longrightarrow> split_on sep (join [sep] ss) = ss"
proof (induction "[sep]" ss rule: join.induct)
  case 1
  then show ?case by simp
next
  case (2 x)
  then show ?case by (simp add: split_on_plain)
next
  case (3 x y ys)
  then show ?case by (simp add: split_on_append)
qed

lemma pattern_fields:
  assumes "countsPattern counts = lit" and "lit \<noteq> []"
  shows "sorted (split_on CHR '','' lit)"
proof -
  let ?ss = "map decimal (sort_key decimal (object_values counts))"
  have srt: "sorted ?ss" by (rule sorted_sort_key)
  have j: "join '','' ?ss = lit" using assms(1) by (simp add: countsPattern_def)
  with assms(2) have ne: "?ss \<noteq> []" by auto
  have "\<forall>x\<in>set ?ss. CHR '','' \<notin> set x" by (auto simp: decimal_no_comma)
  with ne have "split_on CHR '','' (join '','' ?ss) = ?ss" by (rule split_on_join)
  with j srt show ?thesis by simp
qed

lemma classifyByCounts_HIGH: "classifyByCounts counts = HIGH"
proof -
  have "countsPattern counts \<noteq> ''4,1''"
    using pattern_fields [of counts "''4,1''"] by auto
  moreover have "countsPattern counts \<noteq> ''3,2''"
    using pattern_fields [of counts "''3,2''"] by auto
  moreover have "countsPattern counts \<noteq> ''3,1,1''"
    using pattern_fields [of counts "''3,1,1''"] by auto
  moreover have "countsPattern counts \<noteq> ''2,2,1''"
    using pattern_fields [of counts "''2,2,1''"] by auto
  moreover have "countsPattern counts \<noteq> ''2,1,1,1''"
    using pattern_fields [of counts "''2,1,1,1''"] by auto
  ultimately show ?thesis by (simp add: classifyByCounts_def)
qed

subsection \<open>The lookup table\<close>

lemma evaluate5Kev_cases:
  "evaluate5Kev L cards = (STRAIGHTFLUSH, L) \<or> evaluate5Kev L cards = (FLUSH, L)
   \<or> evaluate5Kev L cards = (STRAIGHT, L)
   \<or> (\<exists>v. L (primeProduct (map encodeCard cards)) = Some v \<and> evaluate5Kev L cards = (v, L))
   \<or> (evaluate5Kev L cards = (HIGH, L(primeProduct (map encodeCard cards) \<mapsto> HIGH)))"
  by (auto simp: evaluate5Kev_def Let_def classifyByCounts_HIGH split: option.splits)

lemma reachable_HIGH: "reachable L \<Longrightarrow> L k = Some v \<Longrightarrow> v = HIGH"
proof (induction arbitrary: k v rule: reachable.induct)
  case loaded
  then show ?case by simp
next
  case (called L cards)
  from evaluate5Kev_cases [of L cards] called show ?case
    by (auto split: if_splits)
qed

subsection \<open>Encoded cards, flush and straight tests\<close>

lemma rankIndex_less: "rankIndex r < 13"
  by (cases r) simp_all

lemma RANKS_rankIndex: "RANKS ! rankIndex r = r"
  by (cases r) (simp_all add: RANKS_def)

lemma encodeCard_low: "encodeCard c AND 0xff = PRIMES ! rankIndex (rank c)"
proof -
  obtain r s where c: "c = \<lparr>rank = r, suit = s\<rparr>" by (cases c) auto
  show ?thesis unfolding c
    by (cases r; cases s) (simp_all add: encodeCard_def PRIMES_def)
qed

lemma encodeCard_suit: "encodeCard c AND 0xf000 = SUIT_MASK (suit c)"
proof -
  obtain r s where c: "c = \<lparr>rank = r, suit = s\<rparr>" by (cases c) auto
  show ?thesis unfolding c
    by (cases r; cases s) (simp_all add: encodeCard_def PRIMES_def)
qed

lemma encodeCard_bit: "signed_drop_bit 16 (encodeCard c) = push_bit (rankIndex (rank c)) 1"
proof -
  obtain r s where c: "c = \<lparr>rank = r, suit = s\<rparr>" by (cases c) auto
  show ?thesis unfolding c
    by (cases r; cases s) (simp_all add: encodeCard_def PRIMES_def)
qed

lemma signed_drop_bit_or:
  "signed_drop_bit n (a OR b) = signed_drop_bit n a OR signed_drop_bit n (b :: int32)"
  by (rule bit_word_eqI) (simp add: bit_simps)

lemma ex_less_5: "(\<exists>i<5::nat. P i) \<longleftrightarrow> P 0 \<or> P 1 \<or> P 2 \<or> P 3 \<or> P 4"
proof -
  have "{..<5::nat} = {0, 1, 2, 3, 4}" by auto
  then have "(\<exists>i<5. P i) = (\<exists>i\<in>{0, 1, 2, 3, 4}. P i)" by (metis lessThan_iff)
  then show ?thesis by simp
qed

lemma rankMask_bit:
  "bit (rankMask (map encodeCard cards)) n \<longleftrightarrow>
     (\<exists>i<5. i < length cards \<and> n = rankIndex (rank (cards ! i)))"
proof -
  have one: "bit (signed_drop_bit 16 (int_at (map encodeCard cards) i)) n \<longleftrightarrow>
      i < length cards \<and> n = rankIndex (rank (cards ! i))" for i
  proof (cases "i < length cards")
    case True
    then have "signed_drop_bit 16 (int_at (map encodeCard cards) i)
        = push_bit (rankIndex (rank (cards ! i))) 1"
      by (simp add: int_at_def encodeCard_bit)
    with True rankIndex_less [of "rank (cards ! i)"] show ?thesis
      by (auto simp: bit_simps)
  next
    case False
    then show ?thesis by (simp add: int_at_def)
  qed
  show ?thesis
    unfolding rankMask_def signed_drop_bit_or bit_or_iff one ex_less_5 by simp
qed

lemma STRAIGHTS_windows:
  "STRAIGHTS = map (\<lambda>i. push_bit i (mask 5)) (rev [0..<9]) @ [push_bit 12 1 OR mask 4]"
  by (simp add: STRAIGHTS_def mask_eq_exp_minus_1 upt_rec)

lemma and_eq_iff_bits: "(m AND s = s) \<longleftrightarrow> (\<forall>n. bit s n \<longrightarrow> bit m n)" for m s :: int32
proof
  assume "m AND s = s"
  then have "bit (m AND s) n = bit s n" for n by simp
  then show "\<forall>n. bit s n \<longrightarrow> bit m n" by (simp add: bit_and_iff) blast
next
  assume "\<forall>n. bit s n \<longrightarrow> bit m n"
  then show "m AND s = s" by (intro bit_eqI) (auto simp: bit_and_iff)
qed

lemma window_bits: "i < 9 \<Longrightarrow> bit (push_bit i (mask 5) :: int32) n \<longleftrightarrow> i \<le> n \<and> n < i + 5"
  by (auto simp: bit_simps)

lemma wheel_bits: "bit (push_bit 12 1 OR mask 4 :: int32) n \<longleftrightarrow> n \<in> {0, 1, 2, 3, 12}"
proof -
  have "bit (push_bit 12 1 OR mask 4 :: int32) n \<longleftrightarrow> n = 12 \<or> n < 4"
    unfolding bit_or_iff bit_push_bit_iff bit_mask_iff bit_1_iff by auto
  also have "\<dots> \<longleftrightarrow> n \<in> {0, 1, 2, 3, 12}" by auto
  finally show ?thesis .
qed

lemma isStraightMask_iff:
  "isStraightMask m \<longleftrightarrow>
     (\<exists>i<9. \<forall>n. i \<le> n \<and> n < i + 5 \<longrightarrow> bit m n) \<or> (\<forall>n\<in>{0, 1, 2, 3, 12}. bit m n)"
proof -
  have "isStraightMask m \<longleftrightarrow>
      (\<exists>i<9. m AND push_bit i (mask 5) = push_bit i (mask 5))
      \<or> m AND (push_bit 12 1 OR mask 4) = push_bit 12 1 OR mask 4"
    unfolding isStraightMask_def STRAIGHTS_windows by (auto simp: list_ex_iff)
  also have "\<dots> \<longleftrightarrow>
      (\<exists>i<9. \<forall>n. i \<le> n \<and> n < i + 5 \<longrightarrow> bit m n) \<or> (\<forall>n\<in>{0, 1, 2, 3, 12}. bit m n)"
    unfolding and_eq_iff_bits wheel_bits by (auto simp: window_bits)
  finally show ?thesis .
qed

lemma rankMask_bit_ranksOf:
  "bit (rankMask (map encodeCard cards)) n \<longleftrightarrow> n \<in> ranksOf cards"
proof -
  have "n \<in> ranksOf cards \<longleftrightarrow>
      (\<exists>x. (\<exists>i<length (take 5 cards). take 5 cards ! i = x) \<and> n = rankIndex (rank x))"
    unfolding ranksOf_def image_iff by (metis in_set_conv_nth)
  also have "\<dots> \<longleftrightarrow> (\<exists>i<length (take 5 cards). n = rankIndex (rank (take 5 cards ! i)))"
    by blast
  also have "\<dots> \<longleftrightarrow> (\<exists>i<5. i < length cards \<and> n = rankIndex (rank (cards ! i)))"
    by auto
  finally show ?thesis by (simp add: rankMask_bit)
qed

lemma straight_ranksOf:
  "isStraightMask (rankMask (map encodeCard cards)) \<longleftrightarrow>
     (\<exists>i<9. {i..i + 4} \<subseteq> ranksOf cards) \<or> {0, 1, 2, 3, 12} \<subseteq> ranksOf cards"
proof -
  have "(\<forall>n. i \<le> n \<and> n < i + 5 \<longrightarrow> n \<in> ranksOf cards) \<longleftrightarrow> {i..i + 4} \<subseteq> ranksOf cards" for i
    by (auto simp: subset_iff)
  then show ?thesis
    unfolding isStraightMask_iff rankMask_bit_ranksOf by auto
qed

lemma card_ranksOf: "card (ranksOf cards) \<le> min 5 (length cards)"
proof -
  have "card (ranksOf cards) \<le> card (set (take 5 cards))"
    unfolding ranksOf_def by (rule card_image_le) simp
  also have "\<dots> \<le> length (take 5 cards)" by (rule card_length)
  finally show ?thesis by simp
qed

lemma short_not_straight:
  assumes "length cards < 5"
  shows "\<not> isStraightMask (rankMask (map encodeCard cards))"
proof
  assume "isStraightMask (rankMask (map encodeCard cards))"
  then consider i where "{i..i + 4} \<subseteq> ranksOf cards" | "{0, 1, 2, 3, 12} \<subseteq> ranksOf cards"
    unfolding straight_ranksOf by blast
  then obtain S :: "nat set" where S: "S \<subseteq> ranksOf cards" "card S = 5"
  proof cases
    case 1
    then show ?thesis using that [of "{i..i + 4}"] by simp
  next
    case 2
    then show ?thesis using that [of "{0, 1, 2, 3, 12}"] by simp
  qed
  have "finite (ranksOf cards)" by (simp add: ranksOf_def)
  with S have "5 \<le> card (ranksOf cards)" by (metis card_mono)
  with card_ranksOf [of cards] assms show False by simp
qed


lemma short_suitAND: "length ints < 5 \<Longrightarrow> suitAND ints = 0"
  by (simp add: suitAND_def int_at_def)

lemma short_primeProduct: "length ints < 5 \<Longrightarrow> primeProduct ints = 0"
  by (simp add: primeProduct_def int_at_def)

lemma int_at_take: "i < 5 \<Longrightarrow> int_at (take 5 ints) i = int_at ints i"
  by (simp add: int_at_def)

lemma first_five:
  "suitAND (take 5 ints) = suitAND ints" "rankMask (take 5 ints) = rankMask ints"
  "primeProduct (take 5 ints) = primeProduct ints"
  by (simp_all add: suitAND_def rankMask_def primeProduct_def int_at_take)


subsection \<open>Count patterns (C1)\<close>

text \<open>
  C1.  The specification maps the counts [3,2] to Full House and gives the hand
  2c 2d 2h 5s 5c as the example.  On the code the pattern of this hand is the string
  "2,3", which is none of the literals of the \<^verbatim>\<open>switch\<close>: with an empty lookup table
  \<open>evaluate5Kev\<close> returns \<open>HIGH\<close> and stores it under the prime product 392.  No counts
  at all are classified above \<open>HIGH\<close>.
\<close>

theorem C1_full_house_evaluates_to_HIGH:
  "classifyByCounts counts = HIGH
   \<and> countsPattern
       (buildCounts [cardOf R2 Clubs, cardOf R2 Diamonds, cardOf R2 Hearts, cardOf R5 Spades,
          cardOf R5 Clubs]) = ''2,3''
   \<and> fst (evaluate5Kev Map.empty
       [cardOf R2 Clubs, cardOf R2 Diamonds, cardOf R2 Hearts, cardOf R5 Spades,
        cardOf R5 Clubs]) = HIGH
   \<and> snd (evaluate5Kev Map.empty
       [cardOf R2 Clubs, cardOf R2 Diamonds, cardOf R2 Hearts, cardOf R5 Spades,
        cardOf R5 Clubs]) 392 = Some HIGH"
proof -
  have "countsPattern
       (buildCounts [cardOf R2 Clubs, cardOf R2 Diamonds, cardOf R2 Hearts, cardOf R5 Spades,
          cardOf R5 Clubs]) = ''2,3''
   \<and> fst (evaluate5Kev Map.empty
       [cardOf R2 Clubs, cardOf R2 Diamonds, cardOf R2 Hearts, cardOf R5 Spades,
        cardOf R5 Clubs]) = HIGH
   \<and> snd (evaluate5Kev Map.empty
       [cardOf R2 Clubs, cardOf R2 Diamonds, cardOf R2 Hearts, cardOf R5 Spades,
        cardOf R5 Clubs]) 392 = Some HIGH"
    by code_simp
  with classifyByCounts_HIGH [of counts] show ?thesis by (rule conjI)
qed

subsection \<open>Inputs of the wrong size (C4)\<close>

text \<open>
  C4 (amended).  \<open>evaluate5Kev\<close> does not look at the length of its input and has no
  failure: it returns a rank class for every array.  With fewer than five cards the missing
  encodings read as 0, so the flush test fails, no straight pattern fits in at most four
  rank bits, and the product is 0: the call returns \<open>HIGH\<close> and the table maps 0 to
  \<open>HIGH\<close>.  With more than five cards, whether the result is a straight flush, a flush or
  a straight is decided by the first five alone.
\<close>

theorem C4_short_input_returns_HIGH:
  assumes "reachable L"
  shows "(length cards < 5 \<longrightarrow> evaluate5Kev L cards = (HIGH, L(0 \<mapsto> HIGH)))
    \<and> (\<forall>cls\<in>{STRAIGHTFLUSH, FLUSH, STRAIGHT}.
          fst (evaluate5Kev L cards) = cls \<longleftrightarrow> fst (evaluate5Kev L (take 5 cards)) = cls)"
proof
  show "length cards < 5 \<longrightarrow> evaluate5Kev L cards = (HIGH, L(0 \<mapsto> HIGH))"
  proof
    assume short: "length cards < 5"
    have "L 0 = None \<or> L 0 = Some HIGH" using reachable_HIGH [OF assms, of 0] by (cases "L 0") auto
    then have "L(0 \<mapsto> HIGH) = L \<or> L 0 = None" by (auto simp: fun_upd_idem)
    with short show "evaluate5Kev L cards = (HIGH, L(0 \<mapsto> HIGH))"
      by (auto simp: evaluate5Kev_def Let_def short_suitAND short_primeProduct short_not_straight
          classifyByCounts_HIGH split: option.splits dest: reachable_HIGH [OF assms])
  qed
next
  have hi: "v = HIGH" if "L k = Some v" for k v using reachable_HIGH [OF assms that] .
  have "fst (evaluate5Kev L cards) = cls \<longleftrightarrow> fst (evaluate5Kev L (take 5 cards)) = cls"
    if "cls \<in> {STRAIGHTFLUSH, FLUSH, STRAIGHT}" for cls
    using that first_five [of "map encodeCard cards"]
    by (auto simp: evaluate5Kev_def Let_def classifyByCounts_HIGH take_map
      split: option.splits dest: hi)
  then show "\<forall>cls\<in>{STRAIGHTFLUSH, FLUSH, STRAIGHT}.
      fst (evaluate5Kev L cards) = cls \<longleftrightarrow> fst (evaluate5Kev L (take 5 cards)) = cls"
    by blast
qed

text \<open>The claim fails at a 4-card input: the call returns \<open>HIGH\<close>.\<close>

theorem C4_four_cards_return_HIGH:
  "fst (evaluate5Kev Map.empty [cardOf R2 Clubs, cardOf R3 Diamonds, cardOf R7 Hearts, cardOf R9 Spades])
     = HIGH"
  by code_simp

theorem C4_witness:
  "reachable Map.empty \<and> length [cardOf R2 Clubs, cardOf R3 Diamonds, cardOf R7 Hearts, cardOf R9 Spades] < 5
   \<and> evaluate5Kev Map.empty [cardOf R2 Clubs, cardOf R3 Diamonds, cardOf R7 Hearts, cardOf R9 Spades]
       = (HIGH, [0 \<mapsto> HIGH])"
  using C4_short_input_returns_HIGH [OF reachable.loaded,
      of "[cardOf R2 Clubs, cardOf R3 Diamonds, cardOf R7 Hearts, cardOf R9 Spades]"]
  by (simp add: reachable.loaded)

subsection \<open>The straight table (C5)\<close>



subsection \<open>The order of the cards (C10)\<close>

lemma length5E:
  assumes "length xs = 5"
  obtains a b c d e where "xs = [a, b, c, d, e]"
proof -
  from assms obtain a b c d e where "xs = [a, b, c, d, e]"
    by (auto simp: eval_nat_numeral length_Suc_conv)
  then show ?thesis by (rule that)
qed

lemma suitAND_foldr: "length ints = 5 \<Longrightarrow> suitAND ints = foldr (AND) ints (- 1)"
  by (erule length5E) (simp add: suitAND_def int_at_def)

lemma rankMask_foldr:
  "length ints = 5 \<Longrightarrow> rankMask ints = signed_drop_bit 16 (foldr (OR) ints 0)"
  by (erule length5E) (simp add: rankMask_def int_at_def)

lemma primeProduct_prod:
  "length ints = 5 \<Longrightarrow> primeProduct ints = prod_list (map (\<lambda>w. sint (w AND 0xff)) ints)"
  by (erule length5E) (simp add: primeProduct_def int_at_def mult.assoc)

lemma countRank_commute: "countRank a \<circ> countRank b = countRank b \<circ> countRank a"
proof (rule ext)
  fix m
  show "(countRank a \<circ> countRank b) m = (countRank b \<circ> countRank a) m"
  proof (cases "rankIndex (rank a) = rankIndex (rank b)")
    case True
    then show ?thesis by (simp add: countRank_def)
  next
    case False
    then show ?thesis by (auto simp: countRank_def Let_def fun_upd_twist)
  qed
qed

lemma buildCounts_mset: "mset xs = mset ys \<Longrightarrow> buildCounts xs = buildCounts ys"
  unfolding buildCounts_def
  by (rule arg_cong [where f = "\<lambda>f. f Map.empty"], rule fold_multiset_equiv)
     (simp_all add: countRank_commute)

lemma and_commute: "(AND) x \<circ> (AND) y = (AND) y \<circ> (AND) (x :: int32)"
  by (simp add: fun_eq_iff and.left_commute)

lemma or_commute: "(OR) x \<circ> (OR) y = (OR) y \<circ> (OR) (x :: int32)"
  by (simp add: fun_eq_iff or.left_commute)

lemma foldr_and_mset:
  assumes "mset xs = mset ys"
  shows "foldr (AND) xs (a :: int32) = foldr (AND) ys a"
proof -
  have "foldr (AND) xs = fold (AND) xs" "foldr (AND) ys = fold (AND) ys"
    by (rule foldr_fold, rule and_commute)+
  moreover have "fold (AND) xs = fold (AND) ys"
    using assms by (intro fold_multiset_equiv and_commute)
  ultimately show ?thesis by simp
qed

lemma foldr_or_mset:
  assumes "mset xs = mset ys"
  shows "foldr (OR) xs (a :: int32) = foldr (OR) ys a"
proof -
  have "foldr (OR) xs = fold (OR) xs" "foldr (OR) ys = fold (OR) ys"
    by (rule foldr_fold, rule or_commute)+
  moreover have "fold (OR) xs = fold (OR) ys"
    using assms by (intro fold_multiset_equiv or_commute)
  ultimately show ?thesis by simp
qed

lemma mset_map_cong_aux: "mset xs = mset ys \<Longrightarrow> mset (map f xs) = mset (map f ys)"
  by (metis mset_map)

lemma prod_list_mset:
  "mset xs = mset ys \<Longrightarrow> prod_list xs = prod_list (ys :: int list)"
  by (metis prod_mset_prod_list)

text \<open>
  C10.  For a 5-card hand and any rearrangement of its cards, \<open>evaluate5Kev\<close> returns the
  same rank class (and leaves the lookup table in the same state), from every state of the
  table: the bitwise AND and OR, the product and the rank counts do not depend on the
  order.
\<close>

theorem C10_permutation_invariance:
  assumes "mset ys = mset xs" and "length xs = 5"
  shows "evaluate5Kev L ys = evaluate5Kev L xs"
proof -
  let ?xs = "map encodeCard xs" and ?ys = "map encodeCard ys"
  from assms have lx: "length ?xs = 5" and ly: "length ?ys = 5"
    by (simp_all add: mset_eq_length [of ys xs])
  from assms(1) have m: "mset ?ys = mset ?xs" by simp
  have a: "suitAND ?ys = suitAND ?xs"
    unfolding suitAND_foldr [OF lx] suitAND_foldr [OF ly] using m by (rule foldr_and_mset)
  have "foldr (OR) ?ys 0 = foldr (OR) ?xs 0" using m by (rule foldr_or_mset)
  then have b: "rankMask ?ys = rankMask ?xs"
    unfolding rankMask_foldr [OF lx] rankMask_foldr [OF ly] by simp
  have "mset (map (\<lambda>w. sint (w AND 0xff)) ?ys) = mset (map (\<lambda>w. sint (w AND 0xff)) ?xs)"
    using m by (rule mset_map_cong_aux)
  then have c: "primeProduct ?ys = primeProduct ?xs"
    unfolding primeProduct_prod [OF lx] primeProduct_prod [OF ly] by (rule prod_list_mset)
  have d: "buildCounts ys = buildCounts xs"
    using assms(1) by (rule buildCounts_mset)
  show ?thesis unfolding evaluate5Kev_def Let_def a b c d ..
qed

theorem C10_witness:
  "mset (rev [cardOf RA Clubs, cardOf R2 Diamonds, cardOf R3 Hearts, cardOf R4 Spades, cardOf R5 Clubs])
     = mset [cardOf RA Clubs, cardOf R2 Diamonds, cardOf R3 Hearts, cardOf R4 Spades, cardOf R5 Clubs]
   \<and> length [cardOf RA Clubs, cardOf R2 Diamonds, cardOf R3 Hearts, cardOf R4 Spades, cardOf R5 Clubs] = 5
   \<and> evaluate5Kev Map.empty
        [cardOf R5 Clubs, cardOf R4 Spades, cardOf R3 Hearts, cardOf R2 Diamonds, cardOf RA Clubs]
      = evaluate5Kev Map.empty
        [cardOf RA Clubs, cardOf R2 Diamonds, cardOf R3 Hearts, cardOf R4 Spades, cardOf R5 Clubs]"
  using C10_permutation_invariance
    [of "rev [cardOf RA Clubs, cardOf R2 Diamonds, cardOf R3 Hearts, cardOf R4 Spades, cardOf R5 Clubs]"
        "[cardOf RA Clubs, cardOf R2 Diamonds, cardOf R3 Hearts, cardOf R4 Spades, cardOf R5 Clubs]"
        Map.empty]
  by simp

subsection \<open>The prime product and the lookup table (C9)\<close>

text \<open>The thirteen weights are pairwise coprime, so a product of them has one factorisation.\<close>

lemma weights_ge2: "\<forall>p\<in>sint ` set PRIMES. 2 \<le> p"
  by code_simp

lemma weights_coprime: "\<forall>p\<in>sint ` set PRIMES. \<forall>q\<in>sint ` set PRIMES. p \<noteq> q \<longrightarrow> coprime p q"
  by code_simp

lemma weights_inj:
  "\<forall>i\<in>set [0..<13]. \<forall>j\<in>set [0..<13]. sint (PRIMES ! i) = sint (PRIMES ! j) \<longrightarrow> i = j"
  by code_simp

lemma weights_unique:
  assumes "set xs \<subseteq> sint ` set PRIMES" and "set ys \<subseteq> sint ` set PRIMES"
    and "prod_list xs = prod_list ys"
  shows "mset xs = mset ys"
  using assms
proof (induction xs arbitrary: ys)
  case Nil
  show ?case
  proof (cases ys)
    case Nil
    then show ?thesis by simp
  next
    case (Cons y ys')
    with Nil have "y dvd 1" by (metis dvd_triv_left prod_list.Cons prod_list.Nil)
    moreover from Cons Nil have "2 \<le> y" using weights_ge2 by auto
    ultimately show ?thesis by simp
  qed
next
  case (Cons p xs)
  then have p: "p \<in> sint ` set PRIMES" by simp
  then have p2: "2 \<le> p" using weights_ge2 by blast
  have dvd: "p dvd prod_list ys" using Cons.prems(3) by (metis dvd_triv_left prod_list.Cons)
  have mem: "p \<in> set ys"
  proof (rule ccontr)
    assume "p \<notin> set ys"
    have "coprime p y" if "y \<in> set ys" for y
    proof -
      from that \<open>p \<notin> set ys\<close> have "p \<noteq> y" by blast
      moreover from that Cons.prems(2) have "y \<in> sint ` set PRIMES" by blast
      ultimately show ?thesis using p weights_coprime by blast
    qed
    then have "coprime p (prod_list ys)" by (rule prod_list_coprime_right)
    with dvd have "is_unit p" by (simp add: coprime_absorb_left)
    with p2 show False by simp
  qed
  then have ms: "mset ys = add_mset p (mset (remove1 p ys))" by simp
  then have "prod_mset (mset ys) = prod_mset (add_mset p (mset (remove1 p ys)))"
    by (rule arg_cong)
  then have "prod_list ys = p * prod_list (remove1 p ys)"
    unfolding prod_mset.add_mset prod_mset_prod_list .
  with Cons.prems(3) have "p * prod_list xs = p * prod_list (remove1 p ys)"
    by simp
  with p2 have eq: "prod_list xs = prod_list (remove1 p ys)" by simp
  have sub: "set (remove1 p ys) \<subseteq> sint ` set PRIMES"
    using Cons.prems(2) set_remove1_subset [of p ys] by blast
  have "set xs \<subseteq> sint ` set PRIMES" using Cons.prems(1) by simp
  then have "mset xs = mset (remove1 p ys)" using sub eq by (rule Cons.IH)
  with ms show ?case by simp
qed

lemma weight_of_card: "sint (encodeCard c AND 0xff) = sint (PRIMES ! rankIndex (rank c))"
  by (simp add: encodeCard_low)

lemma weight_in_PRIMES: "sint (encodeCard c AND 0xff) \<in> sint ` set PRIMES"
proof -
  have "length PRIMES = 13" by (simp add: PRIMES_def)
  with rankIndex_less [of "rank c"] have "PRIMES ! rankIndex (rank c) \<in> set PRIMES"
    by (intro nth_mem) simp
  then show ?thesis unfolding weight_of_card by (rule imageI)
qed

lemma buildCounts_ranks:
  "buildCounts cards =
     fold (\<lambda>r counts. counts(r \<mapsto> (case counts r of None \<Rightarrow> 0 | Some n \<Rightarrow> n) + 1))
       (map (\<lambda>c. rankIndex (rank c)) cards) Map.empty"
proof -
  have "countRank = (\<lambda>r counts. counts(r \<mapsto> (case counts r of None \<Rightarrow> 0 | Some n \<Rightarrow> n) + 1))
      \<circ> (\<lambda>c. rankIndex (rank c))"
    by (simp add: fun_eq_iff countRank_def Let_def)
  then show ?thesis by (simp add: buildCounts_def fold_map)
qed

lemma bump_commute:
  "(\<lambda>counts :: nat \<rightharpoonup> nat. counts(r \<mapsto> (case counts r of None \<Rightarrow> 0 | Some n \<Rightarrow> n) + 1))
     \<circ> (\<lambda>counts. counts(s \<mapsto> (case counts s of None \<Rightarrow> 0 | Some n \<Rightarrow> n) + 1))
   = (\<lambda>counts. counts(s \<mapsto> (case counts s of None \<Rightarrow> 0 | Some n \<Rightarrow> n) + 1))
     \<circ> (\<lambda>counts. counts(r \<mapsto> (case counts r of None \<Rightarrow> 0 | Some n \<Rightarrow> n) + 1))"
  by (cases "r = s") (auto simp: fun_eq_iff)

lemma buildCounts_rank_mset:
  assumes "mset (map (\<lambda>c. rankIndex (rank c)) a) = mset (map (\<lambda>c. rankIndex (rank c)) b)"
  shows "buildCounts a = buildCounts b"
proof -
  let ?bump = "\<lambda>r (counts :: nat \<rightharpoonup> nat).
    counts(r \<mapsto> (case counts r of None \<Rightarrow> 0 | Some n \<Rightarrow> n) + 1)"
  have "fold ?bump (map (\<lambda>c. rankIndex (rank c)) a) = fold ?bump (map (\<lambda>c. rankIndex (rank c)) b)"
    by (rule fold_multiset_equiv) (rule bump_commute, rule assms)
  then show ?thesis unfolding buildCounts_ranks by simp
qed

lemma product_determines_ranks:
  assumes "length a = 5" and "length b = 5"
    and "primeProduct (map encodeCard a) = primeProduct (map encodeCard b)"
  shows "mset (map (\<lambda>c. rankIndex (rank c)) a) = mset (map (\<lambda>c. rankIndex (rank c)) b)"
proof -
  let ?w = "\<lambda>c. sint (encodeCard c AND 0xff)"
  let ?g = "\<lambda>i. sint (PRIMES ! i)"
  let ?r = "\<lambda>c. rankIndex (rank c)"
  from assms have "prod_list (map ?w a) = prod_list (map ?w b)"
    by (simp add: primeProduct_prod comp_def)
  moreover have "set (map ?w a) \<subseteq> sint ` set PRIMES" "set (map ?w b) \<subseteq> sint ` set PRIMES"
    using weight_in_PRIMES by auto
  ultimately have "mset (map ?w a) = mset (map ?w b)" by (intro weights_unique)
  then have "image_mset ?g (mset (map ?r a)) = image_mset ?g (mset (map ?r b))"
    by (simp add: weight_of_card multiset.map_comp comp_def)
  moreover have "i = j" if "i \<in># mset (map ?r a)" "j \<in># mset (map ?r b)" "?g i = ?g j" for i j
  proof -
    from that(1,2) have "i < 13" "j < 13" using rankIndex_less by auto
    with that(3) weights_inj show ?thesis by simp
  qed
  ultimately show ?thesis by (intro multiset.inj_map_strong [where f = ?g and fa = ?g])
qed

text \<open>What a call returns does not depend on what earlier calls stored.\<close>

lemma evaluate5Kev_any_table:
  assumes "reachable L"
  shows "fst (evaluate5Kev L cards) = fst (evaluate5Kev Map.empty cards)"
proof -
  have hi: "v = HIGH" if "L k = Some v" for k v using reachable_HIGH [OF assms that] .
  show ?thesis
    by (auto simp: evaluate5Kev_def Let_def classifyByCounts_HIGH split: option.splits dest: hi)
qed

text \<open>
  C9.  For two 5-card hands, equal prime products give equal rank-count patterns (the
  products determine the ranks with their multiplicities; the hands need not even be free
  of straights and flushes).  \<open>evaluate5Kev\<close> returns the same rank class from the empty
  table and from any table that earlier calls of \<open>evaluate5Kev\<close> have filled.  A hand
  that passes the straight test or the flush test leaves the table as it is, and no table
  holds \<open>STRAIGHT\<close>, \<open>FLUSH\<close> or \<open>STRAIGHTFLUSH\<close> under any key.
\<close>

theorem C9_prime_product_and_cache:
  assumes "reachable L" and "length a = 5" and "length b = 5"
  shows "(primeProduct (map encodeCard a) = primeProduct (map encodeCard b) \<longrightarrow>
            countsPattern (buildCounts a) = countsPattern (buildCounts b))
    \<and> fst (evaluate5Kev L a) = fst (evaluate5Kev Map.empty a)
    \<and> (isStraightMask (rankMask (map encodeCard a)) \<or> suitAND (map encodeCard a) AND 0xf000 \<noteq> 0
          \<longrightarrow> snd (evaluate5Kev L a) = L)
    \<and> (\<forall>k. L k \<notin> {Some STRAIGHT, Some FLUSH, Some STRAIGHTFLUSH})"
proof (intro conjI impI allI)
  assume "primeProduct (map encodeCard a) = primeProduct (map encodeCard b)"
  with assms(2,3) have "buildCounts a = buildCounts b"
    by (intro buildCounts_rank_mset product_determines_ranks)
  then show "countsPattern (buildCounts a) = countsPattern (buildCounts b)" by simp
next
  show "fst (evaluate5Kev L a) = fst (evaluate5Kev Map.empty a)"
    using assms(1) by (rule evaluate5Kev_any_table)
next
  assume "isStraightMask (rankMask (map encodeCard a)) \<or> suitAND (map encodeCard a) AND 0xf000 \<noteq> 0"
  then show "snd (evaluate5Kev L a) = L"
    by (auto simp: evaluate5Kev_def Let_def)
next
  fix k
  show "L k \<notin> {Some STRAIGHT, Some FLUSH, Some STRAIGHTFLUSH}"
    using reachable_HIGH [OF assms(1), of k] by auto
qed

theorem C9_witness:
  "reachable (snd (evaluate5Kev Map.empty
      [cardOf R2 Clubs, cardOf R2 Diamonds, cardOf R2 Hearts, cardOf R5 Spades, cardOf R5 Clubs]))
   \<and> length [cardOf R3 Clubs, cardOf R3 Diamonds, cardOf R9 Hearts, cardOf RK Spades, cardOf R4 Clubs] = 5
   \<and> length [cardOf RK Hearts, cardOf R3 Spades, cardOf R4 Diamonds, cardOf R9 Clubs, cardOf R3 Hearts] = 5
   \<and> primeProduct (map encodeCard
        [cardOf R3 Clubs, cardOf R3 Diamonds, cardOf R9 Hearts, cardOf RK Spades, cardOf R4 Clubs])
     = primeProduct (map encodeCard
        [cardOf RK Hearts, cardOf R3 Spades, cardOf R4 Diamonds, cardOf R9 Clubs, cardOf R3 Hearts])
   \<and> countsPattern (buildCounts
        [cardOf R3 Clubs, cardOf R3 Diamonds, cardOf R9 Hearts, cardOf RK Spades, cardOf R4 Clubs])
     = countsPattern (buildCounts
        [cardOf RK Hearts, cardOf R3 Spades, cardOf R4 Diamonds, cardOf R9 Clubs, cardOf R3 Hearts])"
proof -
  let ?a = "[cardOf R3 Clubs, cardOf R3 Diamonds, cardOf R9 Hearts, cardOf RK Spades, cardOf R4 Clubs]"
  let ?b = "[cardOf RK Hearts, cardOf R3 Spades, cardOf R4 Diamonds, cardOf R9 Clubs, cardOf R3 Hearts]"
  let ?L = "snd (evaluate5Kev Map.empty
      [cardOf R2 Clubs, cardOf R2 Diamonds, cardOf R2 Hearts, cardOf R5 Spades, cardOf R5 Clubs])"
  have r: "reachable ?L" by (intro reachable.intros)
  have p: "primeProduct (map encodeCard ?a) = primeProduct (map encodeCard ?b)"
    by code_simp
  from C9_prime_product_and_cache [OF r, of ?a ?b] p r show ?thesis by simp
qed

subsection \<open>The best of seven cards (C6)\<close>

text \<open>\<open>combinations arr k\<close> lists the \<open>k\<close>-element selections of \<open>arr\<close>.\<close>

lemma selections_drop:
  assumes "s < length arr"
  shows "selections (drop s arr) (Suc m) =
     map ((#) (arr ! s)) (selections (drop (Suc s) arr) m) @ selections (drop (Suc s) arr) (Suc m)"
proof -
  from assms have "drop s arr = arr ! s # drop (Suc s) arr" by (rule Cons_nth_drop_Suc [symmetric])
  then show ?thesis by simp
qed

lemma selections_concat:
  "selections (drop s arr) (Suc m) =
     concat (map (\<lambda>i. map ((#) (arr ! i)) (selections (drop (Suc i) arr) m)) [s..<length arr])"
proof (induction "length arr - s" arbitrary: s)
  case 0
  then show ?case by simp
next
  case (Suc n)
  then have s: "s < length arr" and n: "n = length arr - Suc s" by simp_all
  from s have "[s..<length arr] = s # [Suc s..<length arr]" by (rule upt_conv_Cons)
  with Suc.hyps(1) [OF n] selections_drop [OF s] show ?case by simp
qed

lemma helper_selections:
  "length c \<le> k \<Longrightarrow> helper arr k s c = map ((@) c) (selections (drop s arr) (k - length c))"
proof (induction arr k s c rule: helper.induct)
  case (1 arr k s c)
  show ?case
  proof (cases "length c = k")
    case True
    then show ?thesis by (subst helper.simps) simp
  next
    case False
    with 1(2) obtain m where m: "k - length c = Suc m" by (metis Suc_diff_Suc le_neq_implies_less)
    have "helper arr k (i + 1) (c @ [arr ! i])
        = map ((@) c \<circ> (#) (arr ! i)) (selections (drop (Suc i) arr) m)"
      if "i \<in> set [s..<length arr]" for i
    proof -
      from m have "k - Suc (length c) = m" "Suc (length c) \<le> k" by simp_all
      with 1(1) [OF False that] show ?thesis by (simp add: comp_def)
    qed
    then have eq: "map (\<lambda>i. helper arr k (i + 1) (c @ [arr ! i])) [s..<length arr]
        = map (\<lambda>i. map ((@) c \<circ> (#) (arr ! i)) (selections (drop (Suc i) arr) m)) [s..<length arr]"
      by (intro map_cong refl)
    have "helper arr k s c
        = concat (map (\<lambda>i. helper arr k (i + 1) (c @ [arr ! i])) [s..<length arr])"
      using False by (subst helper.simps) simp
    also have "\<dots> = concat (map (\<lambda>i. map ((@) c \<circ> (#) (arr ! i))
        (selections (drop (Suc i) arr) m)) [s..<length arr])"
      by (simp only: eq)
    also have "\<dots> = map ((@) c) (selections (drop s arr) (Suc m))"
      by (simp add: selections_concat map_concat comp_def)
    finally show ?thesis by (simp add: m)
  qed
qed

lemma combinations_selections: "combinations arr k = selections arr k"
proof -
  have "map ((@) []) xss = xss" for xss :: "'a list list" by (induction xss) simp_all
  then show ?thesis by (simp add: combinations_def helper_selections)
qed

lemma length_selections: "length (selections xs k) = length xs choose k"
  by (induction xs k rule: selections.induct) simp_all

lemma set_selections: "set (selections xs k) = {ys. subseq ys xs \<and> length ys = k}"
proof (induction xs k rule: selections.induct)
  case (1 xs)
  then show ?case by auto
next
  case (2 k)
  then show ?case by auto
next
  case (3 x xs k)
  have "{ys. subseq ys (x # xs) \<and> length ys = Suc k}
      = (#) x ` {zs. subseq zs xs \<and> length zs = k} \<union> {ys. subseq ys xs \<and> length ys = Suc k}"
    (is "?A = ?B")
  proof (intro set_eqI iffI)
    fix ys
    assume "ys \<in> ?A"
    then obtain y zs where ys: "ys = y # zs" "length zs = k" "subseq (y # zs) (x # xs)"
      by (cases ys) auto
    then show "ys \<in> ?B" by (cases "y = x") auto
  next
    fix ys
    assume "ys \<in> ?B"
    then show "ys \<in> ?A" by auto
  qed
  with 3 show ?case by simp
qed

lemma rankOrder_index:
  "indexOf rankOrder HIGH = 0" "indexOf rankOrder PAIR = 1" "indexOf rankOrder TWOPAIR = 2"
  "indexOf rankOrder TRIPS = 3" "indexOf rankOrder STRAIGHT = 4" "indexOf rankOrder FLUSH = 5"
  "indexOf rankOrder FULLHOUSE = 6" "indexOf rankOrder QUADS = 7"
  "indexOf rankOrder STRAIGHTFLUSH = 8"
  by (simp_all add: rankOrder_def)

lemma rankOrder_nonneg: "0 \<le> indexOf rankOrder r"
  by (cases r) (simp_all add: rankOrder_index)

lemma rankOrder_inj: "indexOf rankOrder a = indexOf rankOrder b \<Longrightarrow> a = b"
  by (cases a; cases b) (simp_all add: rankOrder_index)

lemma evaluate7Loop_max:
  assumes "reachable L"
  shows "reachable (snd (evaluate7Loop L best cs))
    \<and> fst (evaluate7Loop L best cs) \<in> insert best ((\<lambda>c. fst (evaluate5Kev Map.empty c)) ` set cs)
    \<and> indexOf rankOrder best \<le> indexOf rankOrder (fst (evaluate7Loop L best cs))
    \<and> (\<forall>c\<in>set cs. indexOf rankOrder (fst (evaluate5Kev Map.empty c))
          \<le> indexOf rankOrder (fst (evaluate7Loop L best cs)))"
  using assms
proof (induction cs arbitrary: L best)
  case Nil
  then show ?case by simp
next
  case (Cons c cs)
  obtain r L' where e: "evaluate5Kev L c = (r, L')" by (cases "evaluate5Kev L c")
  have r: "r = fst (evaluate5Kev Map.empty c)"
    using evaluate5Kev_any_table [OF Cons.prems, of c] e by simp
  have L': "reachable L'" using reachable.called [OF Cons.prems, of c] e by simp
  let ?b = "if indexOf rankOrder r > indexOf rankOrder best then r else best"
  have step: "evaluate7Loop L best (c # cs) = evaluate7Loop L' ?b cs" by (simp add: e)
  from Cons.IH [OF L', of ?b] show ?case unfolding step r
    by (auto split: if_splits)
qed

lemma evaluate7Perfect_any_table:
  assumes "reachable L"
  shows "fst (evaluate7Perfect L cards) = fst (evaluate7Perfect Map.empty cards)"
    and "reachable (snd (evaluate7Perfect L cards))"
proof -
  have "fst (evaluate7Loop L best cs) = fst (evaluate7Loop Map.empty best cs)"
    if "reachable L" for L best cs
    using that
  proof (induction cs arbitrary: L best)
    case Nil
    then show ?case by simp
  next
    case (Cons c cs)
    have a: "reachable (snd (evaluate5Kev L c))" "reachable (snd (evaluate5Kev Map.empty c))"
      using Cons.prems by (auto intro: reachable.intros)
    have b: "fst (evaluate5Kev L c) = fst (evaluate5Kev Map.empty c)"
      using Cons.prems by (rule evaluate5Kev_any_table)
    show ?case
      using Cons.IH [OF a(1)] Cons.IH [OF a(2)] b
      by (simp add: case_prod_unfold)
  qed
  from this [OF assms] show "fst (evaluate7Perfect L cards) = fst (evaluate7Perfect Map.empty cards)"
    by (simp add: evaluate7Perfect_def)
  show "reachable (snd (evaluate7Perfect L cards))"
    using evaluate7Loop_max [OF assms] by (simp add: evaluate7Perfect_def)
qed

text \<open>
  C6.  For a 7-card input \<open>combinations\<close> yields 21 lists, exactly the 5-card
  subsequences of the input; \<open>evaluate7Perfect\<close> returns a class whose position in
  \<open>rankOrder\<close> is at least that of the class of every one of them, and it is the class of
  one of them: their maximum.  The lookup table may be in any state earlier calls left.
\<close>

theorem C6_best_of_seven:
  assumes "reachable L" and "reachable L'" and "length cards = 7"
  shows "length (combinations cards 5) = 21
    \<and> set (combinations cards 5) = {sub. subseq sub cards \<and> length sub = 5}
    \<and> (\<forall>sub\<in>set (combinations cards 5).
          indexOf rankOrder (fst (evaluate5Kev L' sub))
            \<le> indexOf rankOrder (fst (evaluate7Perfect L cards)))
    \<and> (\<exists>sub\<in>set (combinations cards 5).
          fst (evaluate7Perfect L cards) = fst (evaluate5Kev L' sub))"
proof -
  let ?cls = "\<lambda>c. fst (evaluate5Kev Map.empty c)"
  let ?r = "fst (evaluate7Perfect L cards)"
  have cls: "fst (evaluate5Kev L' sub) = ?cls sub" for sub
    using assms(2) by (rule evaluate5Kev_any_table)
  have "(7::nat) choose 5 = 21" by (simp add: eval_nat_numeral binomial_Suc_Suc)
  with assms(3) have len: "length (combinations cards 5) = 21"
    by (simp add: combinations_selections length_selections)
  have sets: "set (combinations cards 5) = {sub. subseq sub cards \<and> length sub = 5}"
    by (simp add: combinations_selections set_selections)
  from evaluate7Loop_max [OF assms(1), of HIGH "combinations cards 5"]
  have mem: "?r \<in> insert HIGH (?cls ` set (combinations cards 5))"
    and ub: "\<forall>c\<in>set (combinations cards 5). indexOf rankOrder (?cls c) \<le> indexOf rankOrder ?r"
    by (simp_all add: evaluate7Perfect_def)
  have "\<exists>sub\<in>set (combinations cards 5). ?r = ?cls sub"
  proof (cases "?r \<in> ?cls ` set (combinations cards 5)")
    case True
    then show ?thesis by blast
  next
    case False
    with mem have h: "?r = HIGH" by simp
    from len obtain sub where sub: "sub \<in> set (combinations cards 5)"
      by (cases "combinations cards 5") auto
    with ub h have "indexOf rankOrder (?cls sub) \<le> 0" by (simp add: rankOrder_index)
    with rankOrder_nonneg [of "?cls sub"] have "indexOf rankOrder (?cls sub) = indexOf rankOrder HIGH"
      by (simp add: rankOrder_index)
    then have "?cls sub = HIGH" by (rule rankOrder_inj)
    with h have "?r = ?cls sub" by simp
    with sub show ?thesis by (rule rev_bexI)
  qed
  with len sets ub show ?thesis by (simp add: cls)
qed

theorem C6_witness:
  "reachable Map.empty
   \<and> length [cardOf RA Spades, cardOf RK Spades, cardOf RQ Spades, cardOf RJ Spades,
        cardOf R10 Spades, cardOf R2 Clubs, cardOf R3 Diamonds] = 7
   \<and> length (combinations [cardOf RA Spades, cardOf RK Spades, cardOf RQ Spades, cardOf RJ Spades,
        cardOf R10 Spades, cardOf R2 Clubs, cardOf R3 Diamonds] 5) = 21
   \<and> indexOf rankOrder (fst (evaluate5Kev Map.empty
        [cardOf RA Spades, cardOf RK Spades, cardOf RQ Spades, cardOf RJ Spades, cardOf R10 Spades]))
      \<le> indexOf rankOrder (fst (evaluate7Perfect Map.empty
        [cardOf RA Spades, cardOf RK Spades, cardOf RQ Spades, cardOf RJ Spades,
         cardOf R10 Spades, cardOf R2 Clubs, cardOf R3 Diamonds]))"
proof -
  let ?seven = "[cardOf RA Spades, cardOf RK Spades, cardOf RQ Spades, cardOf RJ Spades,
    cardOf R10 Spades, cardOf R2 Clubs, cardOf R3 Diamonds]"
  let ?five = "[cardOf RA Spades, cardOf RK Spades, cardOf RQ Spades, cardOf RJ Spades,
    cardOf R10 Spades]"
  have e: "reachable Map.empty" by (rule reachable.loaded)
  have l: "length ?seven = 7" by simp
  note c6 = C6_best_of_seven [OF e e l]
  have "subseq ?five ?seven \<and> length ?five = 5" by simp
  with c6 have "?five \<in> set (combinations ?seven 5)" by blast
  with c6 e l show ?thesis by blast
qed

subsection \<open>The arithmetic of doubles\<close>

lemma ilog2_bounds:
  assumes "0 < x"
  shows "2 powi ilog2 x \<le> x" and "x < 2 powi (ilog2 x + 1)"
proof -
  obtain p q where pq: "quotient_of x = (p, q)" by (cases "quotient_of x")
  then have q: "0 < q" and x: "x = of_int p / of_int q"
    using quotient_of_denom_pos [OF pq] quotient_of_div [OF pq] by simp_all
  from assms q x have p: "0 < p" by (simp add: zero_less_divide_iff)
  let ?bp = "bitlen p" and ?bq = "bitlen q"
  from bitlen_bounds [OF p] have p1: "(2::rat) ^ nat (?bp - 1) \<le> of_int p" and p2: "of_int p < (2::rat) ^ nat ?bp"
    by (metis of_int_le_iff of_int_numeral of_int_power, metis of_int_less_iff of_int_numeral of_int_power)
  from bitlen_bounds [OF q] have q1: "(2::rat) ^ nat (?bq - 1) \<le> of_int q" and q2: "of_int q < (2::rat) ^ nat ?bq"
    by (metis of_int_le_iff of_int_numeral of_int_power, metis of_int_less_iff of_int_numeral of_int_power)
  have bp: "1 \<le> ?bp" and bq: "1 \<le> ?bq" using p q by (simp_all add: bitlen_alt_def)
  have P1: "(2::rat) powi (?bp - 1) \<le> of_int p" and P2: "of_int p < (2::rat) powi ?bp"
    using p1 p2 bp by (simp_all add: power_int_def)
  have Q1: "(2::rat) powi (?bq - 1) \<le> of_int q" and Q2: "of_int q < (2::rat) powi ?bq"
    using q1 q2 bq by (simp_all add: power_int_def)
  have qpos: "(0::rat) < of_int q" using q by simp
  have up: "x < 2 powi (?bp - ?bq + 1)"
  proof -
    have "x < 2 powi ?bp / 2 powi (?bq - 1)"
      unfolding x using P2 Q1 p
      by (intro frac_less) auto
    also have "\<dots> = 2 powi (?bp - ?bq + 1)"
      by (simp add: power_int_diff [symmetric] algebra_simps)
    finally show ?thesis .
  qed
  have lo: "2 powi (?bp - ?bq - 1) < x"
  proof -
    have "2 powi (?bp - 1) / 2 powi ?bq < x"
      unfolding x using P1 Q2 qpos
      by (intro frac_less2) auto
    moreover have "(2::rat) powi (?bp - 1) / 2 powi ?bq = 2 powi (?bp - ?bq - 1)"
      by (simp add: power_int_diff [symmetric] algebra_simps)
    ultimately show ?thesis by simp
  qed
  have e: "ilog2 x = (if 2 powi (?bp - ?bq) \<le> x then ?bp - ?bq else ?bp - ?bq - 1)"
    by (simp add: ilog2_def pq)
  show "2 powi ilog2 x \<le> x" using lo by (simp add: e less_imp_le)
  show "x < 2 powi (ilog2 x + 1)" using up by (auto simp: e not_le)
qed

lemma roundEven_near: "\<bar>of_int (roundEven y) - y\<bar> \<le> 1 / 2"
proof -
  have "of_int \<lfloor>y\<rfloor> \<le> y" "y < of_int \<lfloor>y\<rfloor> + 1" by linarith+
  then show ?thesis by (auto simp: roundEven_def Let_def)
qed

lemma roundEven_of_int: "roundEven (of_int k) = k"
  by (simp add: roundEven_def)


lemma pow2_less_iff: "(2::rat) powi m < 2 powi n \<longleftrightarrow> m < n"
proof
  assume a: "(2::rat) powi m < 2 powi n"
  show "m < n"
  proof (rule ccontr)
    assume "\<not> m < n"
    then have "(2::rat) powi n \<le> 2 powi m" by (intro power_int_increasing) simp_all
    with a show False by simp
  qed
next
  assume "m < n"
  then show "(2::rat) powi m < 2 powi n" by (intro power_int_strict_increasing) simp_all
qed

lemma abs_scale: "\<bar>a - x / u\<bar> * u = \<bar>a * u - x\<bar>" if "0 < u" for a x u :: rat
proof -
  have "(a - x / u) * u = a * u - x" using that by (simp add: field_simps)
  then have "\<bar>a * u - x\<bar> = \<bar>a - x / u\<bar> * \<bar>u\<bar>" by (metis abs_mult)
  with that show ?thesis by simp
qed

lemma binary64_error:
  assumes lo: "2 powi (- 1022) \<le> x" and hi: "x \<le> 2 powi 1000"
  obtains y where "binary64 x = Finite y" and "\<bar>y - x\<bar> \<le> x / 2 ^ 53"
proof -
  have x0: "0 < x" using lo by (smt (verit) zero_less_power_int zero_less_numeral less_le_trans)
  let ?e = "ilog2 x"
  let ?u = "(2::rat) powi (?e - 52)"
  let ?y = "of_int (roundEven (x / ?u)) * ?u"
  have e1: "2 powi ?e \<le> x" and e2: "x < 2 powi (?e + 1)" using ilog2_bounds [OF x0] by simp_all
  have "(2::rat) powi (- 1022) < 2 powi (?e + 1)" using lo e2 by (rule le_less_trans)
  then have "- 1022 < ?e + 1" by (simp only: pow2_less_iff)
  then have emax: "max ?e (- 1022) = ?e" by simp
  have u0: "0 < ?u" by simp
  have "\<bar>of_int (roundEven (x / ?u)) - x / ?u\<bar> \<le> 1 / 2" by (rule roundEven_near)
  then have "\<bar>of_int (roundEven (x / ?u)) - x / ?u\<bar> * ?u \<le> 1 / 2 * ?u"
    using u0 by (intro mult_right_mono) simp_all
  moreover have "\<bar>of_int (roundEven (x / ?u)) - x / ?u\<bar> * ?u = \<bar>?y - x\<bar>"
    using u0 by (rule abs_scale)
  ultimately have d: "\<bar>?y - x\<bar> \<le> ?u / 2" by simp
  have "?u / 2 = 2 powi ?e / 2 ^ 53"
    by (simp add: power_int_diff)
  also have "\<dots> \<le> x / 2 ^ 53" using e1 by (simp add: divide_right_mono)
  finally have u2: "?u / 2 \<le> x / 2 ^ 53" .
  with d have err: "\<bar>?y - x\<bar> \<le> x / 2 ^ 53" by simp
  have "?y \<le> x + x / 2 ^ 53" using err by linarith
  also have "\<dots> \<le> 2 * x" using x0 by (simp add: field_simps)
  also have "\<dots> \<le> 2 * 2 powi 1000" using hi by simp
  also have "\<dots> < 2 powi 1024" by (simp add: power_int_def)
  finally have "\<not> 2 powi 1024 \<le> ?y" by simp
  with x0 have "binary64 x = Finite ?y" by (simp add: binary64_def Let_def emax)
  then show ?thesis using err by (rule that)
qed

lemma binary64_of_nat:
  assumes "k < 2 ^ 53"
  shows "binary64 (of_nat k) = Finite (of_nat k)"
proof (cases "k = 0")
  case True
  then show ?thesis by (simp add: binary64_def)
next
  case False
  let ?x = "of_nat k :: rat"
  have x0: "0 < ?x" using False by simp
  let ?e = "ilog2 ?x"
  have e1: "2 powi ?e \<le> ?x" and e2: "?x < 2 powi (?e + 1)" using ilog2_bounds [OF x0] by simp_all
  have "(1::rat) \<le> ?x" using False by (simp add: Suc_leI)
  then have "(2::rat) powi 0 \<le> ?x" by simp
  then have "(2::rat) powi 0 < 2 powi (?e + 1)" using e2 by (rule le_less_trans)
  then have "0 < ?e + 1" by (simp only: pow2_less_iff)
  then have ge: "0 \<le> ?e" by simp
  have "?x < 2 ^ 53" using assms by (metis of_nat_less_iff of_nat_numeral of_nat_power)
  moreover have "(2::rat) ^ 53 = 2 powi 53" by (simp add: power_int_def)
  ultimately have "?x < 2 powi 53" by (simp only:)
  with e1 have "(2::rat) powi ?e < 2 powi 53" by (rule le_less_trans)
  then have le: "?e < 53" by (simp only: pow2_less_iff)
  have emax: "max ?e (- 1022) = ?e" using ge by simp
  let ?u = "(2::rat) powi (?e - 52)"
  have "?x / ?u = ?x * 2 powi (52 - ?e)" by (simp add: power_int_diff)
  also have "\<dots> = ?x * 2 ^ nat (52 - ?e)" using le by (simp add: power_int_def)
  also have "\<dots> = of_int (int k * 2 ^ nat (52 - ?e))" by simp
  finally have "roundEven (?x / ?u) = int k * 2 ^ nat (52 - ?e)" by (simp only: roundEven_of_int)
  then have "of_int (roundEven (?x / ?u)) * ?u = ?x * 2 ^ nat (52 - ?e) * ?u" by simp
  also have "\<dots> = ?x * (2 powi (52 - ?e) * ?u)" using le by (simp add: power_int_def)
  also have "2 powi (52 - ?e) * ?u = (1::rat)" by (simp add: power_int_add [symmetric])
  finally have y: "of_int (roundEven (?x / ?u)) * ?u = ?x" by simp
  have "?x < 2 powi 1024" using \<open>?x < 2 ^ 53\<close> by (simp add: power_int_def) 
  then show ?thesis using x0 by (simp add: binary64_def Let_def emax y)
qed


lemma pow2_small: "(2::rat) powi (- 1022) \<le> 1 / 2 ^ 54"
proof -
  have "(2::rat) powi (- 1022) \<le> 2 powi (- 54)" by (intro power_int_increasing) simp_all
  also have "\<dots> = 1 / 2 ^ 54" by (simp add: power_int_def field_simps)
  finally show ?thesis .
qed

lemma pow2_large: "(256::rat) \<le> 2 powi 1000"
proof -
  have "(256::rat) = 2 powi 8" by (simp add: power_int_def)
  also have "\<dots> \<le> 2 powi 1000" by (intro power_int_increasing) simp_all
  finally show ?thesis .
qed

lemma round_half_up_near: "\<bar>of_int \<lfloor>x * 100 + 1 / 2\<rfloor> / 100 - x\<bar> \<le> 1 / 200" for x :: rat
proof -
  define f :: rat where "f = of_int \<lfloor>x * 100 + 1 / 2\<rfloor>"
  have "f \<le> x * 100 + 1 / 2" "x * 100 + 1 / 2 < f + 1"
    unfolding f_def by linarith+
  then have "\<bar>f / 100 - x\<bar> \<le> 1 / 200" unfolding abs_le_iff by linarith
  then show ?thesis unfolding f_def .
qed

lemma pow2_small_le: "1 / 2 ^ 54 \<le> x \<Longrightarrow> 2 powi (- 1022) \<le> x" for x :: rat
  by (rule order_trans [OF pow2_small])

lemma le_pow2_large: "x \<le> 256 \<Longrightarrow> x \<le> 2 powi 1000" for x :: rat
  by (rule order_trans [OF _ pow2_large])

lemma abs_two_steps: "\<bar>x - q * 100\<bar> \<le> \<bar>x - y * 100\<bar> + 100 * \<bar>y - q\<bar>" for x :: rat
proof -
  have "x - q * 100 = (x - y * 100) + 100 * (y - q)" by (simp add: algebra_simps)
  then have "\<bar>x - q * 100\<bar> \<le> \<bar>x - y * 100\<bar> + \<bar>100 * (y - q)\<bar>"
    by (simp only: abs_triangle_ineq)
  moreover have "\<bar>100 * (y - q)\<bar> = 100 * \<bar>y - q\<bar>" by (subst abs_mult) simp
  ultimately show ?thesis by (simp only:)
qed

lemma abs_upper: "\<bar>a - b\<bar> \<le> d \<Longrightarrow> a \<le> b + d" for a :: rat
  by linarith

lemma percent_doubles:
  assumes n0: "0 < n" and n53: "n < 2 ^ 53" and cn: "c \<le> n"
  obtains x where
    "mulNum doubles (divNum doubles (numOf doubles c) (numOf doubles n)) (numOf doubles 100)
       = Finite x"
    and "\<bar>x - of_nat c / of_nat n * 100\<bar> \<le> 100 / 2 ^ 51"
    and "percent doubles c n = binary64 (of_int \<lfloor>x * 100 + 1 / 2\<rfloor> / 100)"
    and "\<bar>of_int \<lfloor>x * 100 + 1 / 2\<rfloor> / 100 - x\<bar> \<le> 1 / 200"
proof -
  let ?c = "of_nat c :: rat" and ?n = "of_nat n :: rat"
  let ?q = "?c / ?n"
  have nc: "binary64 ?c = Finite ?c" using cn n53 by (intro binary64_of_nat) simp
  have nn: "binary64 ?n = Finite ?n" using n53 by (rule binary64_of_nat)
  have n100: "binary64 (of_nat 100) = Finite (of_nat 100)" by (rule binary64_of_nat) simp
  have npos: "0 < ?n" using n0 by simp
  have prod: "mulNum doubles (divNum doubles (numOf doubles c) (numOf doubles n)) (numOf doubles 100)
      = mulDouble (binary64 ?q) (Finite 100)"
    using npos nc nn n100 by (simp add: doubles_def)
  have "\<exists>x. mulDouble (binary64 ?q) (Finite 100) = Finite x
      \<and> \<bar>x - ?q * 100\<bar> \<le> 100 / 2 ^ 51 \<and> x < 10 ^ 21"
  proof (cases "c = 0")
    case True
    then show ?thesis by (simp add: binary64_def)
  next
    case False
    then have c1: "1 \<le> ?c" by (simp add: Suc_leI)
    have "?n < 2 ^ 53" using n53 by (metis of_nat_less_iff of_nat_numeral of_nat_power)
    then have "1 / 2 ^ 53 < 1 / ?n" using npos by (simp add: frac_less2)
    also have "1 / ?n \<le> ?q" using c1 npos by (simp add: divide_right_mono)
    finally have qlo: "1 / 2 ^ 53 < ?q" .
    have qhi: "?q \<le> 1" using cn npos by simp
    have half: "(1::rat) / 2 ^ 54 \<le> 1 / 2 ^ 53" by simp
    have "2 powi (- 1022) \<le> ?q"
      by (rule pow2_small_le) (rule order_trans [OF half less_imp_le [OF qlo]])
    moreover have "?q \<le> 2 powi 1000" using qhi by (intro le_pow2_large) simp
    ultimately obtain y where y: "binary64 ?q = Finite y" and ye: "\<bar>y - ?q\<bar> \<le> ?q / 2 ^ 53"
      by (rule binary64_error)
    have q0: "0 < ?q" using c1 npos by simp
    have ylo: "?q / 2 \<le> y" using ye q0 by (simp add: abs_le_iff field_simps)
    have yhi: "y \<le> 2 * ?q" using ye q0 by (simp add: abs_le_iff field_simps)
    have "2 powi (- 1022) \<le> y * 100"
    proof (rule pow2_small_le)
      have "(1::rat) / 2 ^ 54 = 1 / 2 ^ 53 / 2" by simp
      also have "\<dots> \<le> ?q / 2" using qlo by (intro divide_right_mono) simp_all
      also have "\<dots> \<le> y" by (rule ylo)
      also have "\<dots> \<le> y * 100" using ylo q0 by simp
      finally show "1 / 2 ^ 54 \<le> y * 100" .
    qed
    moreover have "y * 100 \<le> 2 powi 1000" using yhi qhi by (intro le_pow2_large) simp
    ultimately obtain x where x: "binary64 (y * 100) = Finite x"
      and xe: "\<bar>x - y * 100\<bar> \<le> y * 100 / 2 ^ 53"
      by (rule binary64_error)
    have "\<bar>x - ?q * 100\<bar> \<le> \<bar>x - y * 100\<bar> + 100 * \<bar>y - ?q\<bar>" by (rule abs_two_steps)
    also have "\<dots> \<le> y * 100 / 2 ^ 53 + 100 * (?q / 2 ^ 53)" using xe ye by simp
    also have "\<dots> \<le> 2 * 100 / 2 ^ 53 + 100 * (1 / 2 ^ 53)"
      using yhi qhi by (intro add_mono) (simp_all add: divide_right_mono)
    also have "\<dots> \<le> 100 / 2 ^ 51" by simp
    finally have e: "\<bar>x - ?q * 100\<bar> \<le> 100 / 2 ^ 51" .
    then have "x \<le> ?q * 100 + 100 / 2 ^ 51" by (rule abs_upper)
    also have "\<dots> \<le> 100 + 100 / 2 ^ 51" using qhi by simp
    also have "\<dots> < 10 ^ 21" by simp
    finally have "x < 10 ^ 21" .
    with e x y show ?thesis by simp
  qed
  then obtain x where x: "mulDouble (binary64 ?q) (Finite 100) = Finite x"
    and e: "\<bar>x - ?q * 100\<bar> \<le> 100 / 2 ^ 51" and big: "x < 10 ^ 21"
    by blast
  have p: "percent doubles c n = binary64 (of_int \<lfloor>x * 100 + 1 / 2\<rfloor> / 100)"
    using prod x big by (simp add: percent_def) (simp add: doubles_def)
  show ?thesis
    using prod x e p round_half_up_near [of x] by (intro that [of x]) simp_all
qed

lemma floor_near_int:
  fixes z :: rat
  assumes "\<bar>z - of_int k\<bar> < 1"
  shows "\<lfloor>z\<rfloor> = k \<or> \<lfloor>z\<rfloor> = k - 1"
proof (cases "of_int k \<le> z")
  case True
  with assms have "\<lfloor>z\<rfloor> = k" by (intro floor_unique) simp_all
  then show ?thesis ..
next
  case False
  with assms have "\<lfloor>z\<rfloor> = k - 1" by (intro floor_unique) simp_all
  then show ?thesis ..
qed

lemma halfway_floor:
  fixes y :: rat
  shows "frac y = 1 / 2 \<longleftrightarrow> y + 1 / 2 = of_int \<lfloor>y + 1 / 2\<rfloor>"
proof
  assume "frac y = 1 / 2"
  then have "y + 1 / 2 = of_int (\<lfloor>y\<rfloor> + 1)" by (simp add: frac_def)
  then show "y + 1 / 2 = of_int \<lfloor>y + 1 / 2\<rfloor>" by (metis floor_of_int)
next
  assume a: "y + 1 / 2 = of_int \<lfloor>y + 1 / 2\<rfloor>"
  define k where "k = \<lfloor>y + 1 / 2\<rfloor>"
  from a have y: "y = of_int (k - 1) + 1 / 2" by (simp add: k_def)
  then have "\<lfloor>y\<rfloor> = k - 1" by (intro floor_unique) simp_all
  with y show "frac y = 1 / 2" by (simp add: frac_def)
qed

lemma int_step:
  fixes m :: int and d :: rat
  assumes "0 < d" and "0 < of_int m / d"
  shows "1 / d \<le> of_int m / d"
proof -
  from assms have "0 < m" by (simp add: zero_less_divide_iff)
  then have "(1::rat) \<le> of_int m" by simp
  with assms(1) show ?thesis by (simp add: divide_right_mono)
qed

lemma percent_rounding:
  assumes n0: "0 < n" and n11: "n \<le> 10 ^ 11" and cn: "c \<le> n"
  shows "percentageOf (percent doubles c n) c n"
proof -
  define q :: rat where "q = of_nat c / of_nat n * 100"
  define t where "t = q * 100 + 1 / 2"
  define k where "k = \<lfloor>t\<rfloor>"
  define d :: rat where "d = 2 * of_nat n"
  have "(10::nat) ^ 11 < 2 ^ 53" by simp
  with n11 have n53: "n < 2 ^ 53" by (rule le_less_trans)
  from n0 n53 cn obtain x where
    xe: "\<bar>x - q\<bar> \<le> 100 / 2 ^ 51"
    and p: "percent doubles c n = binary64 (of_int \<lfloor>x * 100 + 1 / 2\<rfloor> / 100)"
    unfolding q_def by (rule percent_doubles)
  define z where "z = x * 100 + 1 / 2"
  have "z - t = 100 * (x - q)" by (simp add: z_def t_def algebra_simps)
  then have "\<bar>z - t\<bar> = \<bar>100 * (x - q)\<bar>" by (simp only:)
  also have "\<dots> = 100 * \<bar>x - q\<bar>" by (subst abs_mult) simp
  finally have "\<bar>z - t\<bar> = 100 * \<bar>x - q\<bar>" .
  with xe have zt: "\<bar>z - t\<bar> \<le> 10000 / 2 ^ 51" by simp
  have dpos: "0 < d" using n0 by (simp add: d_def)
  have "of_nat n \<le> (10::rat) ^ 11" using n11 by (metis of_nat_le_iff of_nat_numeral of_nat_power)
  then have dle: "d \<le> 2 * 10 ^ 11" by (simp add: d_def)
  have step: "10000 / 2 ^ 51 < 1 / d"
  proof -
    have "(10000::rat) / 2 ^ 51 < 1 / (2 * 10 ^ 11)" by simp
    also have "\<dots> \<le> 1 / d" using dpos dle by (intro divide_left_mono) simp_all
    finally show ?thesis .
  qed
  have tM: "t = of_int (20000 * int c + int n) / d"
    using n0 by (simp add: t_def q_def d_def field_simps)
  have r: "rounded2 q = of_int k / 100" by (simp add: rounded2_def k_def t_def)
  show ?thesis
  proof (cases "halfway c n")
    case True
    then have "t = of_int k"
      unfolding halfway_def k_def t_def q_def by (simp only: halfway_floor)
    with zt have "\<bar>z - of_int k\<bar> < 1" by simp
    then have "\<lfloor>z\<rfloor> = k \<or> \<lfloor>z\<rfloor> = k - 1" by (rule floor_near_int)
    then have "percent doubles c n = binary64 (rounded2 q)
        \<or> percent doubles c n = binary64 (rounded2 q - 1 / 100)"
      unfolding p z_def [symmetric] r by (auto simp: diff_divide_distrib)
    with True show ?thesis by (simp add: percentageOf_def Let_def q_def)
  next
    case False
    then have ne: "t \<noteq> of_int k"
      unfolding halfway_def k_def t_def q_def by (simp only: halfway_floor) simp
    have "of_int k \<le> t" "t < of_int k + 1" unfolding k_def by linarith+
    with ne have lo: "0 < t - of_int k" and hi: "0 < of_int k + 1 - t" by simp_all
    have "t - of_int k = of_int (20000 * int c + int n - 2 * int n * k) / d"
      using n0 unfolding tM by (simp add: d_def field_simps)
    with lo dpos have lo': "1 / d \<le> t - of_int k" by (metis int_step)
    have "of_int k + 1 - t = of_int (2 * int n * (k + 1) - (20000 * int c + int n)) / d"
      using n0 unfolding tM by (simp add: d_def field_simps)
    with hi dpos have hi': "1 / d \<le> of_int k + 1 - t" by (metis int_step)
    from zt step lo' hi' have "of_int k \<le> z" "z < of_int k + 1"
      unfolding abs_le_iff by linarith+
    then have "\<lfloor>z\<rfloor> = k" by (intro floor_unique) simp_all
    then have "percent doubles c n = binary64 (rounded2 q)"
      unfolding p z_def [symmetric] r by simp
    with False show ?thesis by (simp add: percentageOf_def Let_def q_def)
  qed
qed

text \<open>The overflow test by the exponent, for evaluation.\<close>

lemma overflow_iff: "2 powi 1024 \<le> y \<longleftrightarrow> 0 < y \<and> 1024 \<le> ilog2 y" for y :: rat
proof (cases "0 < y")
  case True
  note b = ilog2_bounds [OF True]
  show ?thesis
  proof
    assume "2 powi 1024 \<le> y"
    also have "y < 2 powi (ilog2 y + 1)" using b by simp
    finally have "1024 < ilog2 y + 1" by (simp only: pow2_less_iff)
    with True show "0 < y \<and> 1024 \<le> ilog2 y" by simp
  next
    assume "0 < y \<and> 1024 \<le> ilog2 y"
    then have "(2::rat) powi 1024 \<le> 2 powi ilog2 y" by (intro power_int_increasing) simp_all
    also have "\<dots> \<le> y" using b by simp
    finally show "2 powi 1024 \<le> y" .
  qed
next
  case False
  have "(0::rat) < 2 powi 1024" by (rule zero_less_power_int) simp
  with False show ?thesis by auto
qed

lemma binary64_code [code]:
  "binary64 x =
     (if x = 0 then Finite 0
      else let e = max (ilog2 x) (- 1022);
               u = 2 powi (e - 52);
               y = of_int (roundEven (x / u)) * u
           in if 0 < y \<and> 1024 \<le> ilog2 y then PosInf else Finite y)"
  unfolding binary64_def overflow_iff ..

subsection \<open>The counters of the equity functions (C7)\<close>

lemma handVsHandTrial_counts:
  "(\<lambda>r. heroWin r + villainWin r + RangeEquityResult.tie r)
      (fst (handVsHandTrial rnd heroHole villainHole board i st))
   = heroWin (fst st) + villainWin (fst st) + RangeEquityResult.tie (fst st) + 1"
  by (simp add: handVsHandTrial_def Let_def case_prod_unfold)

lemma handVsHand_fold_counts:
  "(\<lambda>r. heroWin r + villainWin r + RangeEquityResult.tie r)
      (fst (fold (handVsHandTrial rnd heroHole villainHole board) idx st))
   = heroWin (fst st) + villainWin (fst st) + RangeEquityResult.tie (fst st) + length idx"
proof (induction idx arbitrary: st)
  case Nil
  then show ?case by simp
next
  case (Cons i idx)
  show ?case
    using Cons.IH [of "handVsHandTrial rnd heroHole villainHole board i st"]
      handVsHandTrial_counts [of rnd heroHole villainHole board i st]
    by simp
qed

lemma calculateHandVsHandEquity_counts:
  fixes A :: "'n arith"
  defines "r \<equiv> \<lambda>rnd L heroHole villainHole board iterations.
    fst (calculateHandVsHandEquity A rnd L heroHole villainHole board iterations)"
  shows "heroWin (r rnd L heroHole villainHole board iterations)
      + villainWin (r rnd L heroHole villainHole board iterations)
      + RangeEquityResult.tie (r rnd L heroHole villainHole board iterations) = iterations"
    and "heroPct (r rnd L heroHole villainHole board iterations)
      = percent A (heroWin (r rnd L heroHole villainHole board iterations)) iterations"
    and "villainPct (r rnd L heroHole villainHole board iterations)
      = percent A (villainWin (r rnd L heroHole villainHole board iterations)) iterations"
    and "HandVsHandEquityResult.tiePct (r rnd L heroHole villainHole board iterations)
      = percent A (RangeEquityResult.tie (r rnd L heroHole villainHole board iterations)) iterations"
  using handVsHand_fold_counts [of rnd heroHole villainHole board "[0..<iterations]"
      "(\<lparr>heroWin = 0, villainWin = 0, tie = 0\<rparr>, L)"]
  by (simp_all add: r_def calculateHandVsHandEquity_def Let_def case_prod_unfold)

lemma trials_measure:
  assumes "\<And>i st st'. body i st = Inr st' \<Longrightarrow> m st' = m st + (1::nat)"
    and "trials body idx st = Inr st'"
  shows "m st' = m st + length idx"
  using assms(2)
proof (induction idx arbitrary: st)
  case Nil
  then show ?case by simp
next
  case (Cons i idx)
  then obtain st1 where b: "body i st = Inr st1" and t: "trials body idx st1 = Inr st'"
    by (auto split: sum.splits)
  from assms(1) [OF b] Cons.IH [OF t] show ?case by simp
qed

lemma trials_returns:
  assumes "\<And>i st. i \<in> set idx \<Longrightarrow> \<exists>st'. body i st = Inr st'"
  shows "\<exists>st'. trials body idx st = Inr st'"
  using assms
proof (induction idx arbitrary: st)
  case Nil
  then show ?case by simp
next
  case (Cons i idx)
  from Cons.prems [of i st] obtain st1 where b: "body i st = Inr st1" by auto
  from Cons.IH [of st1] Cons.prems obtain st' where "trials body idx st1 = Inr st'" by auto
  with b show ?case by simp
qed

text \<open>The deck left after the used cards are removed.\<close>

lemma used_iff:
  "list_ex (\<lambda>u. rank u = rank c \<and> suit u = suit c) used \<longleftrightarrow> c \<in> set used"
  for c :: Card and used :: "Card list"
proof -
  have "rank u = rank c \<and> suit u = suit c \<longleftrightarrow> u = c" for u :: Card
    by (cases u; cases c) auto
  then show ?thesis by (simp add: list_ex_iff)
qed

lemma FULL_DECK_distinct: "distinct FULL_DECK \<and> length FULL_DECK = 52"
  by (simp add: FULL_DECK_def)

lemma remaining_deck:
  fixes used :: "Card list"
  shows "52 - length used
     \<le> length (filter (\<lambda>c. \<not> list_ex (\<lambda>u. rank u = rank c \<and> suit u = suit c) used) FULL_DECK)"
proof -
  let ?in = "filter (\<lambda>c. c \<in> set used) FULL_DECK"
  have "distinct ?in" using FULL_DECK_distinct by simp
  then have "length ?in = card (set ?in)" by (rule distinct_card [symmetric])
  also have "\<dots> \<le> card (set used)" by (intro card_mono) auto
  also have "\<dots> \<le> length used" by (rule card_length)
  finally have "length ?in \<le> length used" .
  moreover have "length ?in + length (filter (\<lambda>c. \<not> c \<in> set used) FULL_DECK) = 52"
    using sum_length_filter_compl [of "\<lambda>c. c \<in> set used" FULL_DECK] FULL_DECK_distinct by simp
  ultimately show ?thesis unfolding used_iff by simp
qed

text \<open>One trial of \<open>calculateHandEquity\<close>.\<close>

lemma handTrial_counts:
  assumes "handTrial rnd heroHole board i st = Inr st'"
  shows "win (fst st') + lose (fst st') + EquityCounts.tie (fst st')
     = win (fst st) + lose (fst st) + EquityCounts.tie (fst st) + 1"
  using assms
  by (auto simp: handTrial_def Let_def case_prod_unfold split: sum.splits if_splits)

lemma handTrial_returns:
  assumes "\<And>deck. length (rearranged (rnd i) deck) = length deck"
    and "length board \<le> 5"
  shows "\<exists>st'. handTrial rnd heroHole board i st = Inr st'"
proof -
  let ?deck = "filter (\<lambda>c. \<not> list_ex (\<lambda>u. rank u = rank c \<and> suit u = suit c)
       (spread heroHole @ board)) FULL_DECK"
  have "52 - length (spread heroHole @ board) \<le> length ?deck" by (rule remaining_deck)
  with assms(2) have "2 \<le> length ?deck" by (simp add: spread_def)
  with assms(1) have "2 \<le> length (shuffle (rnd i) ?deck)" by (simp add: shuffle_def)
  then have "0 < length (shuffle (rnd i) ?deck)" "1 < length (shuffle (rnd i) ?deck)"
    by linarith+
  then have "element (shuffle (rnd i) ?deck) 0 \<noteq> None" "element (shuffle (rnd i) ?deck) 1 \<noteq> None"
    unfolding element_def by simp_all
  then show ?thesis
    by (auto simp: handTrial_def Let_def case_prod_unfold evaluate7PerfectU_def list_all_iff
        split: sum.splits)
qed

text \<open>One trial of \<open>equityRangeVsRange\<close>.\<close>

lemma rangeTrial_counts:
  assumes "rangeTrial rnd heroRange villainRange board deck i st = Inr st'"
  shows "heroWin (fst st') + villainWin (fst st') + RangeEquityResult.tie (fst st')
     = heroWin (fst st) + villainWin (fst st) + RangeEquityResult.tie (fst st) + 1"
  using assms
  by (auto simp: rangeTrial_def Let_def case_prod_unfold split: option.splits if_splits)

lemma rangeTrial_returns:
  assumes "heroPick (rnd i) < length heroRange" and "villainPick (rnd i) < length villainRange"
  shows "\<exists>st'. rangeTrial rnd heroRange villainRange board deck i st = Inr st'"
  using assms
  by (auto simp: rangeTrial_def Let_def case_prod_unfold element_def)

lemma calculateHandEquity_counts:
  fixes A :: "'n arith"
  assumes "calculateHandEquity A rnd L heroHole board iterations = Inr (r, L')"
  shows "win r + lose r + EquityCounts.tie r = iterations
    \<and> winPct r = percent A (win r) iterations \<and> losePct r = percent A (lose r) iterations
    \<and> EquityResult.tiePct r = percent A (EquityCounts.tie r) iterations"
proof -
  from assms obtain st where t: "trials (handTrial rnd heroHole board) [0..<iterations]
      (\<lparr>win = 0, lose = 0, tie = 0\<rparr>, L) = Inr st"
    by (auto simp: calculateHandEquity_def split: sum.splits)
  have "win (fst st) + lose (fst st) + EquityCounts.tie (fst st) = iterations"
    using trials_measure [where m = "\<lambda>st. win (fst st) + lose (fst st) + EquityCounts.tie (fst st)",
        OF handTrial_counts t]
    by simp
  with assms t show ?thesis
    by (auto simp: calculateHandEquity_def Let_def case_prod_unfold)
qed

lemma calculateHandEquity_returns:
  fixes A :: "'n arith"
  assumes "keepsLength rnd iterations" and "length board \<le> 5"
  shows "\<exists>r L'. calculateHandEquity A rnd L heroHole board iterations = Inr (r, L')"
proof -
  have "\<exists>st'. handTrial rnd heroHole board i st = Inr st'" if "i \<in> set [0..<iterations]" for i st
    using that assms by (intro handTrial_returns) (simp_all add: keepsLength_def)
  then have "\<exists>st. trials (handTrial rnd heroHole board) [0..<iterations]
      (\<lparr>win = 0, lose = 0, tie = 0\<rparr>, L) = Inr st"
    by (rule trials_returns)
  then obtain st where "trials (handTrial rnd heroHole board) [0..<iterations]
      (\<lparr>win = 0, lose = 0, tie = 0\<rparr>, L) = Inr st" ..
  then show ?thesis
    by (simp add: calculateHandEquity_def Let_def case_prod_unfold)
qed

lemma equityRangeVsRange_counts:
  assumes "equityRangeVsRange rnd L heroRange villainRange board deck iterations = Inr (r, L')"
  shows "heroWin r + villainWin r + RangeEquityResult.tie r = iterations"
  using trials_measure
    [where m = "\<lambda>st. heroWin (fst st) + villainWin (fst st) + RangeEquityResult.tie (fst st)",
      OF rangeTrial_counts assms [unfolded equityRangeVsRange_def]]
  by simp

lemma equityRangeVsRange_returns:
  assumes "picksWithin rnd iterations (length heroRange) (length villainRange)"
  shows "\<exists>r L'. equityRangeVsRange rnd L heroRange villainRange board deck iterations = Inr (r, L')"
proof -
  have "\<exists>st'. rangeTrial rnd heroRange villainRange board deck i st = Inr st'"
    if "i \<in> set [0..<iterations]" for i st
    using that assms by (intro rangeTrial_returns) (simp_all add: picksWithin_def)
  then have "\<exists>st'. trials (rangeTrial rnd heroRange villainRange board deck) [0..<iterations]
      (\<lparr>heroWin = 0, villainWin = 0, tie = 0\<rparr>, L) = Inr st'"
    by (rule trials_returns)
  then show ?thesis by (simp add: equityRangeVsRange_def)
qed

lemma fixedDraws_ok: "keepsLength fixedDraws n" "picksWithin fixedDraws n (Suc h) (Suc v)"
  by (simp_all add: keepsLength_def picksWithin_def fixedDraws_def)

text \<open>The outcome of a trial is the showdown on the board it deals.\<close>

lemma handVsHandTrial_showdown:
  fixes r :: RangeEquityResult
  defines "fb \<equiv> \<lambda>rnd heroHole villainHole board i.
    board @ slice (shuffle (rnd i)
      (filter (\<lambda>c. \<not> list_ex (\<lambda>u. rank u = rank c \<and> suit u = suit c)
         (spread heroHole @ spread villainHole @ board)) FULL_DECK)) 0 (5 - int (length board))"
  assumes "reachable L"
  shows "reachable (snd (handVsHandTrial rnd heroHole villainHole board i (r, L)))"
    and "fst (handVsHandTrial rnd heroHole villainHole board i (r, L))
      = (let s = showdown heroHole villainHole (fb rnd heroHole villainHole board i)
         in if s > 0 then r\<lparr>heroWin := heroWin r + 1\<rparr>
            else if s < 0 then r\<lparr>villainWin := villainWin r + 1\<rparr>
            else r\<lparr>RangeEquityResult.tie := RangeEquityResult.tie r + 1\<rparr>)"
proof -
  let ?fb = "fb rnd heroHole villainHole board i"
  let ?h = "spread heroHole @ ?fb" and ?v = "spread villainHole @ ?fb"
  let ?L1 = "snd (evaluate7Perfect L ?h)"
  have L1: "reachable ?L1" using assms(2) by (rule evaluate7Perfect_any_table)
  have L2: "reachable (snd (evaluate7Perfect ?L1 ?v))" using L1 by (rule evaluate7Perfect_any_table)
  have h: "fst (evaluate7Perfect L ?h) = fst (evaluate7Perfect Map.empty ?h)"
    using assms(2) by (rule evaluate7Perfect_any_table)
  have v: "fst (evaluate7Perfect ?L1 ?v) = fst (evaluate7Perfect Map.empty ?v)"
    using L1 by (rule evaluate7Perfect_any_table)
  show "reachable (snd (handVsHandTrial rnd heroHole villainHole board i (r, L)))"
    using L2 by (simp add: handVsHandTrial_def Let_def case_prod_unfold fb_def)
  show "fst (handVsHandTrial rnd heroHole villainHole board i (r, L))
      = (let s = showdown heroHole villainHole ?fb
         in if s > 0 then r\<lparr>heroWin := heroWin r + 1\<rparr>
            else if s < 0 then r\<lparr>villainWin := villainWin r + 1\<rparr>
            else r\<lparr>RangeEquityResult.tie := RangeEquityResult.tie r + 1\<rparr>)"
    using h v by (simp add: handVsHandTrial_def Let_def case_prod_unfold showdown_def fb_def)
qed

lemma handVsHand_fold_showdowns:
  fixes r :: RangeEquityResult
  defines "sd \<equiv> \<lambda>rnd heroHole villainHole board i. showdown heroHole villainHole
    (board @ slice (shuffle (rnd i)
      (filter (\<lambda>c. \<not> list_ex (\<lambda>u. rank u = rank c \<and> suit u = suit c)
         (spread heroHole @ spread villainHole @ board)) FULL_DECK)) 0 (5 - int (length board)))"
  assumes "reachable L"
  shows "reachable (snd (fold (handVsHandTrial rnd heroHole villainHole board) idx (r, L)))
    \<and> fst (fold (handVsHandTrial rnd heroHole villainHole board) idx (r, L))
      = \<lparr>heroWin = heroWin r + length (filter (\<lambda>i. 0 < sd rnd heroHole villainHole board i) idx),
         villainWin = villainWin r + length (filter (\<lambda>i. sd rnd heroHole villainHole board i < 0) idx),
         tie = RangeEquityResult.tie r
           + length (filter (\<lambda>i. sd rnd heroHole villainHole board i = 0) idx)\<rparr>"
  using assms(2)
proof (induction idx arbitrary: r L)
  case Nil
  then show ?case by simp
next
  case (Cons i idx)
  obtain r1 L1 where t: "handVsHandTrial rnd heroHole villainHole board i (r, L) = (r1, L1)"
    by (cases "handVsHandTrial rnd heroHole villainHole board i (r, L)")
  from handVsHandTrial_showdown [OF Cons.prems, of rnd heroHole villainHole board i r] t
  have L1: "reachable L1"
    and r1: "r1 = (let s = sd rnd heroHole villainHole board i
         in if s > 0 then r\<lparr>heroWin := heroWin r + 1\<rparr>
            else if s < 0 then r\<lparr>villainWin := villainWin r + 1\<rparr>
            else r\<lparr>RangeEquityResult.tie := RangeEquityResult.tie r + 1\<rparr>)"
    by (simp_all add: sd_def)
  from Cons.IH [OF L1, of r1] show ?case
    by (simp add: t r1 Let_def)
qed

lemma nineFirst_board:
  "[cardOf RQ Spades, cardOf RJ Spades, cardOf R7 Hearts, cardOf R4 Clubs]
     @ slice (shuffle (nineFirst i) deck) 0
         (5 - int (length [cardOf RQ Spades, cardOf RJ Spades, cardOf R7 Hearts, cardOf R4 Clubs]))
   = [cardOf RQ Spades, cardOf RJ Spades, cardOf R7 Hearts, cardOf R4 Clubs,
      cardOf R9 (if i < 23 then Spades else Hearts)]"
  by (simp add: shuffle_def nineFirst_def slice_def)

text \<open>On the deck of the example \<open>nineFirst\<close> only reorders the cards, as a shuffle does.\<close>

lemma nineFirst_permutes:
  "mset (shuffle (nineFirst i)
      (filter (\<lambda>c. \<not> list_ex (\<lambda>u. rank u = rank c \<and> suit u = suit c)
         (spread (cardOf RA Spades, cardOf RK Spades) @ spread (cardOf R2 Diamonds, cardOf R3 Diamonds)
            @ [cardOf RQ Spades, cardOf RJ Spades, cardOf R7 Hearts, cardOf R4 Clubs])) FULL_DECK))
   = mset (filter (\<lambda>c. \<not> list_ex (\<lambda>u. rank u = rank c \<and> suit u = suit c)
         (spread (cardOf RA Spades, cardOf RK Spades) @ spread (cardOf R2 Diamonds, cardOf R3 Diamonds)
            @ [cardOf RQ Spades, cardOf RJ Spades, cardOf R7 Hearts, cardOf R4 Clubs])) FULL_DECK)"
proof -
  let ?deck = "filter (\<lambda>c. \<not> list_ex (\<lambda>u. rank u = rank c \<and> suit u = suit c)
         (spread (cardOf RA Spades, cardOf RK Spades) @ spread (cardOf R2 Diamonds, cardOf R3 Diamonds)
            @ [cardOf RQ Spades, cardOf RJ Spades, cardOf R7 Hearts, cardOf R4 Clubs])) FULL_DECK"
  have "cardOf R9 Spades \<in> set ?deck" "cardOf R9 Hearts \<in> set ?deck" by code_simp+
  then have "cardOf R9 (if i < 23 then Spades else Hearts) \<in> set ?deck" by simp
  then show ?thesis unfolding shuffle_def nineFirst_def by simp
qed

lemma nine_of_spades:
  "0 < showdown (cardOf RA Spades, cardOf RK Spades) (cardOf R2 Diamonds, cardOf R3 Diamonds)
     [cardOf RQ Spades, cardOf RJ Spades, cardOf R7 Hearts, cardOf R4 Clubs, cardOf R9 Spades]"
  by code_simp

lemma nine_of_hearts:
  "showdown (cardOf RA Spades, cardOf RK Spades) (cardOf R2 Diamonds, cardOf R3 Diamonds)
     [cardOf RQ Spades, cardOf RJ Spades, cardOf R7 Hearts, cardOf R4 Clubs, cardOf R9 Hearts] = 0"
  by code_simp

lemma first_23: "length (filter (\<lambda>i. i < 23) [0..<160]) = 23"
  "length (filter (\<lambda>i. \<not> i < 23) [0..<160]) = 137"
  by code_simp+

lemma nineFirst_counts:
  "fst (fold (handVsHandTrial nineFirst (cardOf RA Spades, cardOf RK Spades)
          (cardOf R2 Diamonds, cardOf R3 Diamonds)
          [cardOf RQ Spades, cardOf RJ Spades, cardOf R7 Hearts, cardOf R4 Clubs]) [0..<160]
        (\<lparr>heroWin = 0, villainWin = 0, tie = 0\<rparr>, Map.empty))
   = \<lparr>heroWin = 23, villainWin = 0, tie = 137\<rparr>"
proof -
  let ?h = "(cardOf RA Spades, cardOf RK Spades)" and ?v = "(cardOf R2 Diamonds, cardOf R3 Diamonds)"
  let ?b = "[cardOf RQ Spades, cardOf RJ Spades, cardOf R7 Hearts, cardOf R4 Clubs]"
  have sd: "showdown ?h ?v (?b @ slice (shuffle (nineFirst i) deck) 0 (5 - int (length ?b)))
      = (if i < 23 then showdown ?h ?v (?b @ [cardOf R9 Spades])
         else showdown ?h ?v (?b @ [cardOf R9 Hearts]))" for i deck
    unfolding nineFirst_board by simp
  have pos: "0 < showdown ?h ?v (?b @ slice (shuffle (nineFirst i) deck) 0 (5 - int (length ?b)))
      \<longleftrightarrow> i < 23" for i deck
    unfolding sd using nine_of_spades nine_of_hearts by simp
  have neg: "showdown ?h ?v (?b @ slice (shuffle (nineFirst i) deck) 0 (5 - int (length ?b))) < 0
      \<longleftrightarrow> False" for i deck
    unfolding sd using nine_of_spades nine_of_hearts by simp
  have zero: "showdown ?h ?v (?b @ slice (shuffle (nineFirst i) deck) 0 (5 - int (length ?b))) = 0
      \<longleftrightarrow> \<not> i < 23" for i deck
    unfolding sd using nine_of_spades nine_of_hearts by simp
  show ?thesis
    using handVsHand_fold_showdowns [OF reachable.loaded, of nineFirst ?h ?v ?b "[0..<160]"
        "\<lparr>heroWin = 0, villainWin = 0, tie = 0\<rparr>"]
    unfolding pos neg zero first_23 by simp
qed

lemma nineFirst_result:
  "fst (calculateHandVsHandEquity doubles nineFirst Map.empty
      (cardOf RA Spades, cardOf RK Spades) (cardOf R2 Diamonds, cardOf R3 Diamonds)
      [cardOf RQ Spades, cardOf RJ Spades, cardOf R7 Hearts, cardOf R4 Clubs] 160)
   = \<lparr>heroWin = 23, villainWin = 0, tie = 137,
       heroPct = percent doubles 23 160, villainPct = percent doubles 0 160,
       tiePct = percent doubles 137 160\<rparr>"
  by (simp add: calculateHandVsHandEquity_def Let_def case_prod_unfold nineFirst_counts)

text \<open>
  C7 (amended).  Whatever the random source draws, the three counters a call returns sum
  to the number of trials.  Each percentage is computed in doubles: the counter divided by
  the number of trials, times 100, rendered with two decimals and read back
  (\<open>percent doubles\<close>).  For a positive number of trials up to \<open>10 ^ 11\<close> it is the double
  nearest to the exact percentage rounded to two decimals, unless the exact percentage
  lies halfway between two hundredths: the product of doubles may then fall below the
  halfway point, and the percentage is that rounding or one hundredth less
  (\<open>percentageOf\<close>).  \<open>calculateHandVsHandEquity\<close> always returns;
  \<open>calculateHandEquity\<close> returns when the board has at most five cards and the shuffle
  keeps the deck's length; \<open>equityRangeVsRange\<close>, which returns no percentages, returns
  when every drawn index is inside its range.
\<close>

theorem C7_counters_and_percentages:
  "(let r = fst (calculateHandVsHandEquity doubles rnd L heroHole villainHole board n)
    in heroWin r + villainWin r + RangeEquityResult.tie r = n
       \<and> heroPct r = percent doubles (heroWin r) n
       \<and> villainPct r = percent doubles (villainWin r) n
       \<and> HandVsHandEquityResult.tiePct r = percent doubles (RangeEquityResult.tie r) n
       \<and> (0 < n \<and> n \<le> 10 ^ 11 \<longrightarrow>
            percentageOf (heroPct r) (heroWin r) n
            \<and> percentageOf (villainPct r) (villainWin r) n
            \<and> percentageOf (HandVsHandEquityResult.tiePct r) (RangeEquityResult.tie r) n))
   \<and> (keepsLength rnd n \<and> length board \<le> 5 \<longrightarrow>
        (\<exists>r L'. calculateHandEquity doubles rnd L heroHole board n = Inr (r, L')))
   \<and> (\<forall>r L'. calculateHandEquity doubles rnd L heroHole board n = Inr (r, L') \<longrightarrow>
        win r + lose r + EquityCounts.tie r = n
        \<and> winPct r = percent doubles (win r) n
        \<and> losePct r = percent doubles (lose r) n
        \<and> EquityResult.tiePct r = percent doubles (EquityCounts.tie r) n
        \<and> (0 < n \<and> n \<le> 10 ^ 11 \<longrightarrow>
             percentageOf (winPct r) (win r) n
             \<and> percentageOf (losePct r) (lose r) n
             \<and> percentageOf (EquityResult.tiePct r) (EquityCounts.tie r) n))
   \<and> (picksWithin rnd n (length heroRange) (length villainRange) \<longrightarrow>
        (\<exists>r L'. equityRangeVsRange rnd L heroRange villainRange board deck n = Inr (r, L')))
   \<and> (\<forall>r L'. equityRangeVsRange rnd L heroRange villainRange board deck n = Inr (r, L') \<longrightarrow>
        heroWin r + villainWin r + RangeEquityResult.tie r = n)"
proof -
  define r where "r = fst (calculateHandVsHandEquity doubles rnd L heroHole villainHole board n)"
  have s: "heroWin r + villainWin r + RangeEquityResult.tie r = n"
    and p: "heroPct r = percent doubles (heroWin r) n"
      "villainPct r = percent doubles (villainWin r) n"
      "HandVsHandEquityResult.tiePct r = percent doubles (RangeEquityResult.tie r) n"
    unfolding r_def by (rule calculateHandVsHandEquity_counts)+
  have q: "percentageOf (heroPct r) (heroWin r) n
      \<and> percentageOf (villainPct r) (villainWin r) n
      \<and> percentageOf (HandVsHandEquityResult.tiePct r) (RangeEquityResult.tie r) n"
    if "0 < n \<and> n \<le> 10 ^ 11"
    unfolding p using that s by (intro conjI percent_rounding) simp_all
  have hand: "win e + lose e + EquityCounts.tie e = n
        \<and> winPct e = percent doubles (win e) n
        \<and> losePct e = percent doubles (lose e) n
        \<and> EquityResult.tiePct e = percent doubles (EquityCounts.tie e) n
        \<and> (0 < n \<and> n \<le> 10 ^ 11 \<longrightarrow>
             percentageOf (winPct e) (win e) n
             \<and> percentageOf (losePct e) (lose e) n
             \<and> percentageOf (EquityResult.tiePct e) (EquityCounts.tie e) n)"
    if "calculateHandEquity doubles rnd L heroHole board n = Inr (e, L')" for e L'
  proof -
    from calculateHandEquity_counts [OF that]
    have s: "win e + lose e + EquityCounts.tie e = n"
      and p: "winPct e = percent doubles (win e) n" "losePct e = percent doubles (lose e) n"
        "EquityResult.tiePct e = percent doubles (EquityCounts.tie e) n"
      by simp_all
    have "percentageOf (winPct e) (win e) n
        \<and> percentageOf (losePct e) (lose e) n
        \<and> percentageOf (EquityResult.tiePct e) (EquityCounts.tie e) n"
      if "0 < n \<and> n \<le> 10 ^ 11"
      unfolding p using that s by (intro conjI percent_rounding) simp_all
    with s p show ?thesis by blast
  qed
  have returns: "\<exists>r L'. calculateHandEquity doubles rnd L heroHole board n = Inr (r, L')"
    if "keepsLength rnd n \<and> length board \<le> 5"
    using that by (intro calculateHandEquity_returns) simp_all
  have range: "heroWin e + villainWin e + RangeEquityResult.tie e = n"
    if "equityRangeVsRange rnd L heroRange villainRange board deck n = Inr (e, L')" for e L'
    using that by (rule equityRangeVsRange_counts)
  have range_returns:
    "\<exists>r L'. equityRangeVsRange rnd L heroRange villainRange board deck n = Inr (r, L')"
    if "picksWithin rnd n (length heroRange) (length villainRange)"
    using that by (rule equityRangeVsRange_returns)
  from s p q hand returns range range_returns show ?thesis
    unfolding Let_def r_def [symmetric] by blast
qed

theorem C7_witness:
  "(0::nat) < 160 \<and> (160::nat) \<le> 10 ^ 11
   \<and> (let r = fst (calculateHandVsHandEquity doubles nineFirst Map.empty
                (cardOf RA Spades, cardOf RK Spades) (cardOf R2 Diamonds, cardOf R3 Diamonds)
                [cardOf RQ Spades, cardOf RJ Spades, cardOf R7 Hearts, cardOf R4 Clubs] 160)
        in heroWin r + villainWin r + RangeEquityResult.tie r = 160
           \<and> halfway (heroWin r) 160
           \<and> (heroPct r = binary64 (rounded2 (of_nat (heroWin r) / of_nat 160 * 100))
               \<or> heroPct r = binary64 (rounded2 (of_nat (heroWin r) / of_nat 160 * 100) - 1 / 100))
           \<and> \<not> halfway (villainWin r) 160
           \<and> villainPct r = binary64 (rounded2 (of_nat (villainWin r) / of_nat 160 * 100)))
   \<and> keepsLength fixedDraws 3
   \<and> length [cardOf R7 Hearts, cardOf R9 Clubs, cardOf RJ Spades] \<le> 5
   \<and> picksWithin fixedDraws 3 (length [(cardOf RA Spades, cardOf RK Spades)])
        (length [(cardOf R2 Diamonds, cardOf R3 Diamonds)])
   \<and> (0::nat) < 3 \<and> (3::nat) \<le> 10 ^ 11
   \<and> (\<exists>r L'. calculateHandEquity doubles fixedDraws Map.empty (cardOf RA Spades, cardOf RK Spades)
        [cardOf R7 Hearts, cardOf R9 Clubs, cardOf RJ Spades] 3 = Inr (r, L')
        \<and> win r + lose r + EquityCounts.tie r = 3
        \<and> winPct r = percent doubles (win r) 3
        \<and> percentageOf (winPct r) (win r) 3)
   \<and> (\<exists>r L'. equityRangeVsRange fixedDraws Map.empty [(cardOf RA Spades, cardOf RK Spades)]
        [(cardOf R2 Diamonds, cardOf R3 Diamonds)]
        [cardOf R7 Hearts, cardOf R9 Clubs, cardOf RJ Spades] FULL_DECK 3 = Inr (r, L')
        \<and> heroWin r + villainWin r + RangeEquityResult.tie r = 3)"
proof -
  define r where "r = fst (calculateHandVsHandEquity doubles nineFirst Map.empty
      (cardOf RA Spades, cardOf RK Spades) (cardOf R2 Diamonds, cardOf R3 Diamonds)
      [cardOf RQ Spades, cardOf RJ Spades, cardOf R7 Hearts, cardOf R4 Clubs] 160)"
  have n: "(0::nat) < 160 \<and> (160::nat) \<le> 10 ^ 11" by simp
  have w: "heroWin r = 23" "villainWin r = 0" unfolding r_def nineFirst_result by simp_all
  have h: "halfway 23 160" "\<not> halfway 0 160" by code_simp+
  from C7_counters_and_percentages [of nineFirst Map.empty "(cardOf RA Spades, cardOf RK Spades)"
      "(cardOf R2 Diamonds, cardOf R3 Diamonds)"
      "[cardOf RQ Spades, cardOf RJ Spades, cardOf R7 Hearts, cardOf R4 Clubs]" 160] n
  have s: "heroWin r + villainWin r + RangeEquityResult.tie r = 160"
    and p: "percentageOf (heroPct r) (heroWin r) 160" "percentageOf (villainPct r) (villainWin r) 160"
    unfolding Let_def r_def [symmetric] by blast+
  from p h have a: "heroPct r = binary64 (rounded2 (of_nat (heroWin r) / of_nat 160 * 100))
      \<or> heroPct r = binary64 (rounded2 (of_nat (heroWin r) / of_nat 160 * 100) - 1 / 100)"
    and b: "villainPct r = binary64 (rounded2 (of_nat (villainWin r) / of_nat 160 * 100))"
    unfolding w percentageOf_def Let_def by simp_all
  have first: "let r = fst (calculateHandVsHandEquity doubles nineFirst Map.empty
                (cardOf RA Spades, cardOf RK Spades) (cardOf R2 Diamonds, cardOf R3 Diamonds)
                [cardOf RQ Spades, cardOf RJ Spades, cardOf R7 Hearts, cardOf R4 Clubs] 160)
        in heroWin r + villainWin r + RangeEquityResult.tie r = 160
           \<and> halfway (heroWin r) 160
           \<and> (heroPct r = binary64 (rounded2 (of_nat (heroWin r) / of_nat 160 * 100))
               \<or> heroPct r = binary64 (rounded2 (of_nat (heroWin r) / of_nat 160 * 100) - 1 / 100))
           \<and> \<not> halfway (villainWin r) 160
           \<and> villainPct r = binary64 (rounded2 (of_nat (villainWin r) / of_nat 160 * 100))"
    unfolding Let_def r_def [symmetric] using s a b h w by simp
  note c7 = C7_counters_and_percentages [of fixedDraws Map.empty "(cardOf RA Spades, cardOf RK Spades)"
      "(cardOf R2 Diamonds, cardOf R3 Diamonds)" "[cardOf R7 Hearts, cardOf R9 Clubs, cardOf RJ Spades]" 3
      "[(cardOf RA Spades, cardOf RK Spades)]" "[(cardOf R2 Diamonds, cardOf R3 Diamonds)]" FULL_DECK]
  have k: "keepsLength fixedDraws 3" by (rule fixedDraws_ok)
  have p: "picksWithin fixedDraws 3 (length [(cardOf RA Spades, cardOf RK Spades)])
        (length [(cardOf R2 Diamonds, cardOf R3 Diamonds)])"
    using fixedDraws_ok(2) [of 3 0 0] by simp
  have l: "length [cardOf R7 Hearts, cardOf R9 Clubs, cardOf RJ Spades] \<le> 5" by simp
  have n3: "(0::nat) < 3 \<and> (3::nat) \<le> 10 ^ 11" by simp
  from c7 k l obtain e L' where a: "calculateHandEquity doubles fixedDraws Map.empty
      (cardOf RA Spades, cardOf RK Spades)
      [cardOf R7 Hearts, cardOf R9 Clubs, cardOf RJ Spades] 3 = Inr (e, L')"
    by blast
  with c7 n3 have a': "win e + lose e + EquityCounts.tie e = 3
      \<and> winPct e = percent doubles (win e) 3 \<and> percentageOf (winPct e) (win e) 3" by blast
  from c7 p obtain q M where b: "equityRangeVsRange fixedDraws Map.empty
      [(cardOf RA Spades, cardOf RK Spades)] [(cardOf R2 Diamonds, cardOf R3 Diamonds)]
      [cardOf R7 Hearts, cardOf R9 Clubs, cardOf RJ Spades] FULL_DECK 3 = Inr (q, M)"
    by blast
  with c7 have b': "heroWin q + villainWin q + RangeEquityResult.tie q = 3" by blast
  from n first k l p n3 a a' b b' show ?thesis by blast
qed

text \<open>
  The claim fails at 23 wins in 160 trials.  The exact percentage, 14.375, is rounded to
  14.38; but \<^verbatim>\<open>(23 / 160) * 100\<close> is the double 14.374999999999998, and the call returns
  14.37.  The tie percentage of the same call, 85.625, comes out as 85.63.
\<close>

theorem C7_halfway_percentage_comes_out_lower:
  "fst (calculateHandVsHandEquity doubles nineFirst Map.empty
      (cardOf RA Spades, cardOf RK Spades) (cardOf R2 Diamonds, cardOf R3 Diamonds)
      [cardOf RQ Spades, cardOf RJ Spades, cardOf R7 Hearts, cardOf R4 Clubs] 160)
   = \<lparr>heroWin = 23, villainWin = 0, tie = 137,
       heroPct = binary64 (1437 / 100), villainPct = Finite 0, tiePct = binary64 (8563 / 100)\<rparr>
   \<and> rounded2 (23 / 160 * 100) = 1438 / 100
   \<and> binary64 (1437 / 100) \<noteq> binary64 (1438 / 100)"
proof (intro conjI)
  have p: "percent doubles 23 160 = binary64 (1437 / 100)"
    "percent doubles 0 160 = Finite 0"
    "percent doubles 137 160 = binary64 (8563 / 100)"
    by code_simp+
  show "fst (calculateHandVsHandEquity doubles nineFirst Map.empty
      (cardOf RA Spades, cardOf RK Spades) (cardOf R2 Diamonds, cardOf R3 Diamonds)
      [cardOf RQ Spades, cardOf RJ Spades, cardOf R7 Hearts, cardOf R4 Clubs] 160)
   = \<lparr>heroWin = 23, villainWin = 0, tie = 137,
       heroPct = binary64 (1437 / 100), villainPct = Finite 0, tiePct = binary64 (8563 / 100)\<rparr>"
    by (simp add: calculateHandVsHandEquity_def Let_def case_prod_unfold nineFirst_counts p)
  show "rounded2 (23 / 160 * 100) = 1438 / 100" by code_simp
  show "binary64 (1437 / 100) \<noteq> binary64 (1438 / 100)" by code_simp
qed

subsection \<open>A full board (C8)\<close>

lemma slice_nothing: "slice xs 0 0 = []"
  by (simp add: slice_def)

lemma handVsHandTrial_full_board:
  assumes "reachable L" and "length board = 5"
  shows "reachable (snd (handVsHandTrial rnd heroHole villainHole board i (r, L)))
    \<and> fst (handVsHandTrial rnd heroHole villainHole board i (r, L))
      = (if showdown heroHole villainHole board > 0 then r\<lparr>heroWin := heroWin r + 1\<rparr>
         else if showdown heroHole villainHole board < 0 then r\<lparr>villainWin := villainWin r + 1\<rparr>
         else r\<lparr>RangeEquityResult.tie := RangeEquityResult.tie r + 1\<rparr>)"
proof -
  let ?h = "spread heroHole @ board" and ?v = "spread villainHole @ board"
  let ?L1 = "snd (evaluate7Perfect L ?h)"
  have L1: "reachable ?L1" using assms(1) by (rule evaluate7Perfect_any_table)
  have L2: "reachable (snd (evaluate7Perfect ?L1 ?v))" using L1 by (rule evaluate7Perfect_any_table)
  have h: "fst (evaluate7Perfect L ?h) = fst (evaluate7Perfect Map.empty ?h)"
    using assms(1) by (rule evaluate7Perfect_any_table)
  have v: "fst (evaluate7Perfect ?L1 ?v) = fst (evaluate7Perfect Map.empty ?v)"
    using L1 by (rule evaluate7Perfect_any_table)
  show ?thesis
    using L2 by (simp add: handVsHandTrial_def Let_def case_prod_unfold assms(2) slice_nothing
      showdown_def h v)
qed

lemma handVsHand_fold_full_board:
  assumes "reachable L" and "length board = 5"
  shows "reachable (snd (fold (handVsHandTrial rnd heroHole villainHole board) idx (r, L)))
    \<and> fst (fold (handVsHandTrial rnd heroHole villainHole board) idx (r, L))
      = (if showdown heroHole villainHole board > 0 then r\<lparr>heroWin := heroWin r + length idx\<rparr>
         else if showdown heroHole villainHole board < 0
           then r\<lparr>villainWin := villainWin r + length idx\<rparr>
         else r\<lparr>RangeEquityResult.tie := RangeEquityResult.tie r + length idx\<rparr>)"
  using assms(1)
proof (induction idx arbitrary: r L)
  case Nil
  then show ?case by simp
next
  case (Cons i idx)
  obtain r1 L1 where t: "handVsHandTrial rnd heroHole villainHole board i (r, L) = (r1, L1)"
    by (cases "handVsHandTrial rnd heroHole villainHole board i (r, L)")
  from handVsHandTrial_full_board [OF Cons.prems assms(2), of rnd heroHole villainHole i r] t
  have L1: "reachable L1"
    and r1: "r1 = (if showdown heroHole villainHole board > 0 then r\<lparr>heroWin := heroWin r + 1\<rparr>
         else if showdown heroHole villainHole board < 0 then r\<lparr>villainWin := villainWin r + 1\<rparr>
         else r\<lparr>RangeEquityResult.tie := RangeEquityResult.tie r + 1\<rparr>)"
    by simp_all
  from Cons.IH [OF L1, of r1] show ?case
    by (simp add: t r1)
qed

lemma handVsHand_full_board:
  fixes A :: "'n arith"
  assumes "reachable L" and "length board = 5"
  shows "(let r = fst (calculateHandVsHandEquity A rnd L heroHole villainHole board n)
      in (heroWin r, villainWin r, RangeEquityResult.tie r))
     = (if showdown heroHole villainHole board > 0 then (n, 0, 0)
        else if showdown heroHole villainHole board < 0 then (0, n, 0) else (0, 0, n))"
  using handVsHand_fold_full_board [OF assms(1,2), of rnd heroHole villainHole "[0..<n]"
      "\<lparr>heroWin = 0, villainWin = 0, tie = 0\<rparr>"]
  by (simp add: calculateHandVsHandEquity_def Let_def case_prod_unfold)

text \<open>
  C8.  With five board cards nothing is drawn: every trial compares the same two 7-card
  hands.  Two runs of \<open>calculateHandVsHandEquity\<close> on the same holdings and board, with
  any random sources, any trial counts and any states of the lookup table, both put all
  their trials on the same one counter (the one \<open>showdown\<close> names) and leave the other two
  at zero.
\<close>

theorem C8_full_board_is_deterministic:
  fixes A :: "'n arith" and A' :: "'m arith"
  assumes "reachable L" and "reachable L'" and "length board = 5"
  shows
    "let r = fst (calculateHandVsHandEquity A rnd L heroHole villainHole board n);
         r' = fst (calculateHandVsHandEquity A' rnd' L' heroHole villainHole board n')
     in (0 < showdown heroHole villainHole board
          \<and> (heroWin r, villainWin r, RangeEquityResult.tie r) = (n, 0, 0)
          \<and> (heroWin r', villainWin r', RangeEquityResult.tie r') = (n', 0, 0))
      \<or> (showdown heroHole villainHole board < 0
          \<and> (heroWin r, villainWin r, RangeEquityResult.tie r) = (0, n, 0)
          \<and> (heroWin r', villainWin r', RangeEquityResult.tie r') = (0, n', 0))
      \<or> (showdown heroHole villainHole board = 0
          \<and> (heroWin r, villainWin r, RangeEquityResult.tie r) = (0, 0, n)
          \<and> (heroWin r', villainWin r', RangeEquityResult.tie r') = (0, 0, n'))"
  using handVsHand_full_board [OF assms(1,3), of A rnd heroHole villainHole n]
    handVsHand_full_board [OF assms(2,3), of A' rnd' heroHole villainHole n']
  unfolding Let_def by (cases "showdown heroHole villainHole board" "0::int" rule: linorder_cases) simp_all

theorem C8_witness:
  "reachable Map.empty
   \<and> length [cardOf RQ Spades, cardOf RJ Spades, cardOf R9 Spades, cardOf R7 Hearts, cardOf R4 Clubs] = 5
   \<and> (let r = fst (calculateHandVsHandEquity unevaluated fixedDraws Map.empty
                (cardOf RA Spades, cardOf RK Spades) (cardOf R2 Diamonds, cardOf R3 Diamonds)
                [cardOf RQ Spades, cardOf RJ Spades, cardOf R9 Spades, cardOf R7 Hearts, cardOf R4 Clubs] 3);
            r' = fst (calculateHandVsHandEquity unevaluated (\<lambda>i. \<lparr>heroPick = i, villainPick = i, rearranged = rev\<rparr>)
                Map.empty
                (cardOf RA Spades, cardOf RK Spades) (cardOf R2 Diamonds, cardOf R3 Diamonds)
                [cardOf RQ Spades, cardOf RJ Spades, cardOf R9 Spades, cardOf R7 Hearts, cardOf R4 Clubs] 7)
        in (0 < showdown (cardOf RA Spades, cardOf RK Spades) (cardOf R2 Diamonds, cardOf R3 Diamonds)
                  [cardOf RQ Spades, cardOf RJ Spades, cardOf R9 Spades, cardOf R7 Hearts, cardOf R4 Clubs]
             \<and> (heroWin r, villainWin r, RangeEquityResult.tie r) = (3, 0, 0)
             \<and> (heroWin r', villainWin r', RangeEquityResult.tie r') = (7, 0, 0))
         \<or> (showdown (cardOf RA Spades, cardOf RK Spades) (cardOf R2 Diamonds, cardOf R3 Diamonds)
                  [cardOf RQ Spades, cardOf RJ Spades, cardOf R9 Spades, cardOf R7 Hearts, cardOf R4 Clubs] < 0
             \<and> (heroWin r, villainWin r, RangeEquityResult.tie r) = (0, 3, 0)
             \<and> (heroWin r', villainWin r', RangeEquityResult.tie r') = (0, 7, 0))
         \<or> (showdown (cardOf RA Spades, cardOf RK Spades) (cardOf R2 Diamonds, cardOf R3 Diamonds)
                  [cardOf RQ Spades, cardOf RJ Spades, cardOf R9 Spades, cardOf R7 Hearts, cardOf R4 Clubs] = 0
             \<and> (heroWin r, villainWin r, RangeEquityResult.tie r) = (0, 0, 3)
             \<and> (heroWin r', villainWin r', RangeEquityResult.tie r') = (0, 0, 7)))"
proof (intro conjI)
  show e: "reachable Map.empty" by (rule reachable.loaded)
  show l: "length [cardOf RQ Spades, cardOf RJ Spades, cardOf R9 Spades, cardOf R7 Hearts,
    cardOf R4 Clubs] = 5" by simp
  from C8_full_board_is_deterministic [OF e e l]
  show "let r = fst (calculateHandVsHandEquity unevaluated fixedDraws Map.empty
                (cardOf RA Spades, cardOf RK Spades) (cardOf R2 Diamonds, cardOf R3 Diamonds)
                [cardOf RQ Spades, cardOf RJ Spades, cardOf R9 Spades, cardOf R7 Hearts, cardOf R4 Clubs] 3);
            r' = fst (calculateHandVsHandEquity unevaluated (\<lambda>i. \<lparr>heroPick = i, villainPick = i, rearranged = rev\<rparr>)
                Map.empty
                (cardOf RA Spades, cardOf RK Spades) (cardOf R2 Diamonds, cardOf R3 Diamonds)
                [cardOf RQ Spades, cardOf RJ Spades, cardOf R9 Spades, cardOf R7 Hearts, cardOf R4 Clubs] 7)
        in (0 < showdown (cardOf RA Spades, cardOf RK Spades) (cardOf R2 Diamonds, cardOf R3 Diamonds)
                  [cardOf RQ Spades, cardOf RJ Spades, cardOf R9 Spades, cardOf R7 Hearts, cardOf R4 Clubs]
             \<and> (heroWin r, villainWin r, RangeEquityResult.tie r) = (3, 0, 0)
             \<and> (heroWin r', villainWin r', RangeEquityResult.tie r') = (7, 0, 0))
         \<or> (showdown (cardOf RA Spades, cardOf RK Spades) (cardOf R2 Diamonds, cardOf R3 Diamonds)
                  [cardOf RQ Spades, cardOf RJ Spades, cardOf R9 Spades, cardOf R7 Hearts, cardOf R4 Clubs] < 0
             \<and> (heroWin r, villainWin r, RangeEquityResult.tie r) = (0, 3, 0)
             \<and> (heroWin r', villainWin r', RangeEquityResult.tie r') = (0, 7, 0))
         \<or> (showdown (cardOf RA Spades, cardOf RK Spades) (cardOf R2 Diamonds, cardOf R3 Diamonds)
                  [cardOf RQ Spades, cardOf RJ Spades, cardOf R9 Spades, cardOf R7 Hearts, cardOf R4 Clubs] = 0
             \<and> (heroWin r, villainWin r, RangeEquityResult.tie r) = (0, 0, 3)
             \<and> (heroWin r', villainWin r', RangeEquityResult.tie r') = (0, 0, 7))" .
qed

subsection \<open>Repeated cards (C3)\<close>

lemma FULL_DECK_all: "c \<in> set FULL_DECK"
proof -
  obtain r s where c: "c = \<lparr>rank = r, suit = s\<rparr>" by (cases c) auto
  show ?thesis unfolding c by (cases r; cases s) (simp_all add: FULL_DECK_def)
qed

lemma remaining_deck_exact:
  fixes used :: "Card list"
  shows "length (filter (\<lambda>c. \<not> list_ex (\<lambda>u. rank u = rank c \<and> suit u = suit c) used) FULL_DECK)
     = 52 - card (set used)"
proof -
  let ?out = "filter (\<lambda>c. c \<notin> set used) FULL_DECK"
  have univ: "set FULL_DECK = UNIV" using FULL_DECK_all by auto
  then have fin: "finite (UNIV :: Card set)" by (metis List.finite_set)
  have c52: "card (UNIV :: Card set) = 52"
    using FULL_DECK_distinct univ by (metis distinct_card)
  have "distinct ?out" using FULL_DECK_distinct by simp
  then have "length ?out = card (set ?out)" by (rule distinct_card [symmetric])
  also have "set ?out = UNIV - set used" using univ by auto
  also have "card (UNIV - set used) = 52 - card (set used)"
    using fin c52 by (simp add: card_Diff_subset)
  finally show ?thesis unfolding used_iff .
qed

text \<open>
  C3 (amended).  \<open>calculateHandVsHandEquity\<close> does not compare its inputs with each other
  and has no failure.  When a card is repeated across the hero's cards, the villain's cards
  and the board, every trial is run and counted.  Each trial deals its run-out from the
  52 cards less the distinct cards supplied, which are fewer than the cards supplied, and
  counts the showdown of the two holdings, as they were given, on the board so completed.
\<close>

theorem C3_duplicates_are_not_rejected:
  fixes A :: "'n arith"
  assumes "\<not> distinct (spread heroHole @ spread villainHole @ board)"
  shows "(let r = fst (calculateHandVsHandEquity A rnd L heroHole villainHole board n)
          in heroWin r + villainWin r + RangeEquityResult.tie r = n)
    \<and> (let used = spread heroHole @ spread villainHole @ board;
            deck = filter (\<lambda>c. c \<notin> set used) FULL_DECK;
            s = showdown heroHole villainHole
                  (board @ slice (shuffle (rnd i) deck) 0 (5 - int (length board)))
        in length deck = 52 - card (set used)
           \<and> card (set used) < length used
           \<and> (reachable L \<longrightarrow>
                fst (handVsHandTrial rnd heroHole villainHole board i (r, L))
                = (if 0 < s then r\<lparr>heroWin := heroWin r + 1\<rparr>
                   else if s < 0 then r\<lparr>villainWin := villainWin r + 1\<rparr>
                   else r\<lparr>RangeEquityResult.tie := RangeEquityResult.tie r + 1\<rparr>)))"
proof -
  let ?used = "spread heroHole @ spread villainHole @ board"
  have deck: "filter (\<lambda>c. c \<notin> set ?used) FULL_DECK
      = filter (\<lambda>c. \<not> list_ex (\<lambda>u. rank u = rank c \<and> suit u = suit c) ?used) FULL_DECK"
    unfolding used_iff ..
  have a: "let r = fst (calculateHandVsHandEquity A rnd L heroHole villainHole board n)
      in heroWin r + villainWin r + RangeEquityResult.tie r = n"
    unfolding Let_def by (rule calculateHandVsHandEquity_counts)
  have b: "length (filter (\<lambda>c. c \<notin> set ?used) FULL_DECK) = 52 - card (set ?used)"
    unfolding deck by (rule remaining_deck_exact)
  have c: "card (set ?used) < length ?used"
    using assms card_length [of ?used] card_distinct [of ?used] by (meson le_neq_implies_less)
  have d: "fst (handVsHandTrial rnd heroHole villainHole board i (r, L))
      = (let s = showdown heroHole villainHole
            (board @ slice (shuffle (rnd i) (filter (\<lambda>c. c \<notin> set ?used) FULL_DECK)) 0
               (5 - int (length board)))
         in if 0 < s then r\<lparr>heroWin := heroWin r + 1\<rparr>
            else if s < 0 then r\<lparr>villainWin := villainWin r + 1\<rparr>
            else r\<lparr>RangeEquityResult.tie := RangeEquityResult.tie r + 1\<rparr>)"
    if "reachable L"
    unfolding deck using handVsHandTrial_showdown(2) [OF that] .
  from a b c d show ?thesis unfolding Let_def by blast
qed

theorem C3_witness:
  "\<not> distinct (spread (cardOf RA Spades, cardOf RK Spades)
       @ spread (cardOf RA Spades, cardOf RQ Diamonds) @ [])
   \<and> reachable Map.empty
   \<and> (let r = fst (calculateHandVsHandEquity unevaluated fixedDraws Map.empty
                (cardOf RA Spades, cardOf RK Spades) (cardOf RA Spades, cardOf RQ Diamonds) [] 10)
        in heroWin r + villainWin r + RangeEquityResult.tie r = 10)
   \<and> (let used = spread (cardOf RA Spades, cardOf RK Spades)
                   @ spread (cardOf RA Spades, cardOf RQ Diamonds) @ [];
            deck = filter (\<lambda>c. c \<notin> set used) FULL_DECK;
            s = showdown (cardOf RA Spades, cardOf RK Spades) (cardOf RA Spades, cardOf RQ Diamonds)
                  ([] @ slice (shuffle (fixedDraws 0) deck) 0 (5 - int (length ([] :: Card list))))
        in length deck = 49 \<and> card (set used) = 3 \<and> length used = 4
           \<and> fst (handVsHandTrial fixedDraws (cardOf RA Spades, cardOf RK Spades)
                    (cardOf RA Spades, cardOf RQ Diamonds) [] 0
                    (\<lparr>heroWin = 0, villainWin = 0, tie = 0\<rparr>, Map.empty))
              = (if 0 < s then \<lparr>heroWin = 1, villainWin = 0, tie = 0\<rparr>
                 else if s < 0 then \<lparr>heroWin = 0, villainWin = 1, tie = 0\<rparr>
                 else \<lparr>heroWin = 0, villainWin = 0, tie = 1\<rparr>))"
proof -
  have d: "\<not> distinct (spread (cardOf RA Spades, cardOf RK Spades)
       @ spread (cardOf RA Spades, cardOf RQ Diamonds) @ [])"
    by (simp add: spread_def)
  have e: "reachable Map.empty" by (rule reachable.loaded)
  have u: "card (set (spread (cardOf RA Spades, cardOf RK Spades)
       @ spread (cardOf RA Spades, cardOf RQ Diamonds) @ [])) = 3"
    "length (spread (cardOf RA Spades, cardOf RK Spades)
       @ spread (cardOf RA Spades, cardOf RQ Diamonds) @ []) = 4"
    by code_simp+
  from C3_duplicates_are_not_rejected [OF d, of unevaluated fixedDraws Map.empty 10 0
      "\<lparr>heroWin = 0, villainWin = 0, tie = 0\<rparr>"] d e u
  show ?thesis unfolding Let_def by simp
qed

text \<open>The claim fails with the ace of spades in both holdings: one trial, one tie.\<close>

theorem C3_duplicate_card_runs_the_trial:
  "fst (calculateHandVsHandEquity unevaluated fixedDraws Map.empty
      (cardOf RA Spades, cardOf RK Spades) (cardOf RA Spades, cardOf RQ Diamonds) [] 1)
   = \<lparr>heroWin = 0, villainWin = 0, tie = 1,
       heroPct = Fixed2 (Times (Quot (Lit 0) (Lit 1)) (Lit 100)),
       villainPct = Fixed2 (Times (Quot (Lit 0) (Lit 1)) (Lit 100)),
       tiePct = Fixed2 (Times (Quot (Lit 1) (Lit 1)) (Lit 100))\<rparr>"
  by code_simp

subsection \<open>The comparison in range against range (C2)\<close>

text \<open>
  C2.  The specification has every trial compare the two rank classes by their position
  in the enumeration.  \<open>equityRangeVsRange\<close> compares the two strings instead.  With the
  board Qs Js 9s 7h 4c the hero's As Ks make a flush and the villain's 2d 3d make a high
  card; the flush is the higher class, but "FLUSH" is the smaller string, and the trial is
  counted for the villain.
\<close>

theorem C2_flush_loses_to_high_card:
  "fst (evaluate7Perfect Map.empty
      [cardOf RA Spades, cardOf RK Spades, cardOf RQ Spades, cardOf RJ Spades, cardOf R9 Spades,
       cardOf R7 Hearts, cardOf R4 Clubs]) = FLUSH
   \<and> fst (evaluate7Perfect Map.empty
      [cardOf R2 Diamonds, cardOf R3 Diamonds, cardOf RQ Spades, cardOf RJ Spades, cardOf R9 Spades,
       cardOf R7 Hearts, cardOf R4 Clubs]) = HIGH
   \<and> indexOf rankOrder HIGH < indexOf rankOrder FLUSH
   \<and> className FLUSH < className HIGH
   \<and> map_sum id fst (equityRangeVsRange fixedDraws Map.empty
        [(cardOf RA Spades, cardOf RK Spades)] [(cardOf R2 Diamonds, cardOf R3 Diamonds)]
        [cardOf RQ Spades, cardOf RJ Spades, cardOf R9 Spades, cardOf R7 Hearts, cardOf R4 Clubs]
        FULL_DECK 1)
      = Inr \<lparr>heroWin = 0, villainWin = 1, tie = 0\<rparr>"
  by code_simp

end
